theory Spec2Isabelle
  imports Complex_Main "HOL-Library.Word"
begin

section \<open>Frames and luminance\<close>

text \<open>
  A frame is the camera's array \<open>arr[row][column][channel]\<close> of unsigned 8-bit values,
  recorded in format \<open>bgr\<close>. The programs are Python 2 (they use the \<open>print\<close>
  statement), so \<open>round\<close> rounds halves away from zero and \<open>/\<close> between integer
  arrays is floor division. Floating-point values (\<open>np.linspace\<close>, \<open>np.arange\<close>,
  \<open>np.average\<close>) are taken in exact rational arithmetic.
\<close>

type_synonym pixel = "8 word \<times> 8 word \<times> 8 word"

type_synonym frame = "pixel list list"

datatype error = IndexError | AttributeError | ValueError | ZeroDivisionError

text \<open>
  \<open>np.sum(arr[:,c,:],1)\<close> in \<open>g2scanner.py\<close>: the three channels of column \<open>c\<close>, added
  for every row. \<open>np.sum\<close> accumulates 8-bit values in the platform's unsigned integer,
  so nothing wraps. A column that the frame does not have is an IndexError.
\<close>

definition lum :: "pixel \<Rightarrow> nat" where
  "lum p = (case p of (b, g, r) \<Rightarrow> unat b + unat g + unat r)"

definition column_lums :: "frame \<Rightarrow> nat \<Rightarrow> error + nat list" where
  "column_lums arr c =
     (if list_all (\<lambda>row. c < length row) arr then Inr (map (\<lambda>row. lum (row ! c)) arr)
      else Inl IndexError)"

text \<open>
  The camera delivers rectangular frames: \<open>camera.resolution = (16, 300)\<close> gives 300 rows
  of 16 columns.
\<close>

definition frame_shape :: "frame \<Rightarrow> nat \<Rightarrow> nat \<Rightarrow> bool" where
  "frame_shape arr ROWS COLS \<longleftrightarrow> length arr = ROWS \<and> list_all (\<lambda>row. length row = COLS) arr"

text \<open>Frames for concrete runs: every row is one pixel repeated over the 16 columns.\<close>

definition striped :: "pixel list \<Rightarrow> frame" where
  "striped ps = map (replicate 16) ps"

definition black :: pixel where
  "black = (0, 0, 0)"

definition white :: pixel where
  "white = (255, 255, 255)"

section \<open>The scanner of g2scanner.py\<close>

definition BLACK_LUM_MAX :: nat where
  "BLACK_LUM_MAX = 100"

text \<open>
  The two marker loops of \<open>analyse\<close>: \<open>for i in range(ROWS)\<close> and
  \<open>for i in range(ROWS-1,-1,-1)\<close>, each leaving at the first row below the threshold.
\<close>

definition find_top :: "nat list \<Rightarrow> nat \<Rightarrow> nat option" where
  "find_top lums thr = find (\<lambda>i. lums ! i < thr) [0..<length lums]"

definition find_bottom :: "nat list \<Rightarrow> nat \<Rightarrow> nat option" where
  "find_bottom lums thr = find (\<lambda>i. lums ! i < thr) (rev [0..<length lums])"

text \<open>
  \<open>np.linspace(start, stop, num)\<close>, in exact arithmetic: \<open>num\<close> evenly spaced values
  from \<open>start\<close> to \<open>stop\<close>, both included.
\<close>

definition linspace :: "rat \<Rightarrow> rat \<Rightarrow> nat \<Rightarrow> rat list" where
  "linspace start stop num =
     map (\<lambda>i. start + of_nat i * ((stop - start) / of_nat (num - 1))) [0..<num]"

text \<open>\<open>int(round(x))\<close> of Python 2: the nearest integer, a half going away from zero.\<close>

definition py2_round :: "rat \<Rightarrow> int" where
  "py2_round x = (if 0 \<le> x then \<lfloor>x + 1 / 2\<rfloor> else \<lceil>x - 1 / 2\<rceil>)"

definition bin_pixels_of :: "nat \<Rightarrow> nat \<Rightarrow> nat list" where
  "bin_pixels_of top_bar_pixel bottom_bar_pixel =
     map (\<lambda>x. nat (py2_round x)) (linspace (of_nat top_bar_pixel) (of_nat bottom_bar_pixel) 21)"

text \<open>
  The scan column: four columns off the column \<open>max_edge\<close> with the most edge energy.
  \<open>max_edge\<close> is what \<open>np.argmax(np.sum(cv2.Canny(arr,60,250), axis=0))\<close> returns; the
  edge detector is a library outside the repository, so its answer is a parameter.
\<close>

definition scan_column_of :: "nat \<Rightarrow> nat" where
  "scan_column_of max_edge = (if max_edge > 9 then max_edge - 4 else max_edge + 4)"

text \<open>
  One bin of the decode loop: \<open>np.sum(lums[tp:bp]/(bp-tp)) < 2*BLACK_LUM_MAX\<close>. Each row's
  luminance is divided by the bin's height (integers: the quotient is floored), then the
  quotients are added. On an empty slice nothing is divided and the sum is 0.
\<close>

definition bin_sum :: "nat list \<Rightarrow> nat \<Rightarrow> nat \<Rightarrow> nat" where
  "bin_sum lums tp bp = sum_list (map (\<lambda>l. l div (bp - tp)) (drop tp (take bp lums)))"

definition bin_bit :: "nat list \<Rightarrow> nat \<Rightarrow> nat \<Rightarrow> nat" where
  "bin_bit lums tp bp = (if bin_sum lums tp bp < 2 * BLACK_LUM_MAX then 1 else 0)"

definition decode :: "nat list \<Rightarrow> nat list \<Rightarrow> nat list" where
  "decode lums bin_pixels =
     map (\<lambda>i. bin_bit lums (bin_pixels ! i) (bin_pixels ! (i + 1))) [0..<length bin_pixels - 1]"

record 't scanner =
  scan_times :: "'t list"
  num_scans :: nat

record analysis =
  top_bar_pixel :: nat
  bottom_bar_pixel :: nat
  bin_pixels :: "nat list"
  scan_column :: nat
  bin_bits :: "nat list"

text \<open>
  \<open>G2Scanner.analyse\<close>. \<open>now\<close> is \<open>time.time() - self.INIT_TIME\<close>. The result is the
  scanner after the call and what the call computed: an exception, \<open>None\<close> for the early
  \<open>return\<close> after "couldn't find top/bottom!", or the analysis that the image output
  draws.
\<close>

definition analyse :: "'t \<Rightarrow> nat \<Rightarrow> frame \<Rightarrow> 't scanner \<Rightarrow> 't scanner \<times> (error + analysis option)" where
  "analyse now max_edge arr self =
     (let self' = self\<lparr>scan_times := scan_times self @ [now], num_scans := num_scans self + 1\<rparr>
      in if arr = [] then (self', Inl IndexError)
      else case column_lums arr 8 of
        Inl e \<Rightarrow> (self', Inl e)
      | Inr temp_lums \<Rightarrow>
          (case (find_top temp_lums BLACK_LUM_MAX, find_bottom temp_lums BLACK_LUM_MAX) of
            (Some tbp, Some bbp) \<Rightarrow>
              (let bps = bin_pixels_of tbp bbp;
                   col = scan_column_of max_edge
               in case column_lums arr col of
                    Inl e \<Rightarrow> (self', Inl e)
                  | Inr lums \<Rightarrow>
                      (self', Inr (Some \<lparr>top_bar_pixel = tbp, bottom_bar_pixel = bbp,
                         bin_pixels = bps, scan_column = col, bin_bits = decode lums bps\<rparr>)))
          | _ \<Rightarrow> (self', Inr None)))"

section \<open>The threaded scanner of legacy/g2scanner_threaded.py\<close>

text \<open>
  \<open>NUM_THREADS\<close> and \<open>NUM_SCANS\<close> are module constants (1 and 40 in
  \<open>g2scanner_threaded.py\<close>, 4 and 30 in \<open>g2scanner_threaded2.py\<close>); the model takes them from
  a configuration so that the properties hold for every setting.
\<close>

record config =
  NUM_THREADS :: nat
  NUM_SCANS :: nat

definition SCAN_COLUMN :: nat where
  "SCAN_COLUMN = 8"

text \<open>
  The loop of \<open>ImageProcessor.run\<close> that fills \<open>brightness\<close>: for each pair of boundaries,
  \<open>b,g,r = np.average(self.stream.array[bin_pixels[i]:bin_pixels[i+1],SCAN_COLUMN],0)\<close>, and
  the bit is 1 when \<open>r+g+b < 175\<close>. The means are taken in exact arithmetic. The mean of an
  empty slice is not a number, and no comparison with it holds: the bit is 0.
\<close>

definition channel_means :: "pixel list \<Rightarrow> rat \<times> rat \<times> rat" where
  "channel_means px =
     (sum_list (map (\<lambda>(b, g, r). of_nat (unat b)) px) / of_nat (length px),
      sum_list (map (\<lambda>(b, g, r). of_nat (unat g)) px) / of_nat (length px),
      sum_list (map (\<lambda>(b, g, r). of_nat (unat r)) px) / of_nat (length px))"

definition brightness_bit :: "frame \<Rightarrow> nat \<Rightarrow> nat \<Rightarrow> nat" where
  "brightness_bit arr tp bp =
     (let px = map (\<lambda>row. row ! SCAN_COLUMN) (drop tp (take bp arr))
      in if px = [] then 0
         else case channel_means px of (b, g, r) \<Rightarrow> if r + g + b < 175 then 1 else 0)"

definition brightness :: "frame \<Rightarrow> nat list \<Rightarrow> error + nat list" where
  "brightness arr bps =
     (if arr = [] then Inl IndexError
      else if length bps \<le> 1 then Inr []
      else if list_all (\<lambda>row. SCAN_COLUMN < length row) arr
      then Inr (map (\<lambda>i. brightness_bit arr (bps ! i) (bps ! (i + 1))) [0..<length bps - 1])
      else Inl IndexError)"

text \<open>
  The threads run concurrently; the model interleaves their statements. A statement
  group under \<open>with lock\<close> is one step. \<open>main_pc\<close> is where the main thread stands in
  \<open>G2Scanner.streams\<close> (driven by \<open>capture_sequence\<close>) and then in \<open>G2Scanner.close\<close>;
  \<open>worker_pc\<close> is where an \<open>ImageProcessor\<close> stands in \<open>run\<close>.
\<close>

datatype main_pc =
    M_loop            \<comment> \<open>at \<open>while not done\<close>\<close>
  | M_lock            \<comment> \<open>at \<open>with lock: if pool: processor = pool.pop()\<close>\<close>
  | M_fill nat        \<comment> \<open>at \<open>yield processor.stream\<close>: the camera writes the frame\<close>
  | M_set nat         \<comment> \<open>at \<open>processor.event.set()\<close>\<close>
  | M_close           \<comment> \<open>in \<open>close\<close>, at \<open>while len(pool) != NUM_THREADS\<close>\<close>
  | M_shutdown        \<comment> \<open>past that loop: every processor is popped, terminated and joined\<close>

datatype worker_pc =
    W_wait            \<comment> \<open>at \<open>self.event.wait(1)\<close>\<close>
  | W_accept          \<comment> \<open>at the first \<open>with lock\<close> of the \<open>try\<close> block\<close>
  | W_decode          \<comment> \<open>at the loop that fills \<open>brightness\<close>\<close>
  | W_publish "nat list"  \<comment> \<open>at \<open>with lock: current_bit_pattern = brightness\<close>\<close>
  | W_finally bool    \<comment> \<open>at the \<open>finally\<close> block; True when an exception is in flight\<close>
  | W_release bool    \<comment> \<open>at \<open>with lock: pool.append(self)\<close>\<close>
  | W_dead            \<comment> \<open>the exception has left \<open>run\<close>: the thread has ended\<close>

record 't sched =
  pool :: "nat list"
  done_flag :: bool
  taken :: nat
  image_times :: "'t list"
  current_bit_pattern :: "nat list"
  global_bin_pixels :: "nat list"
  mpc :: main_pc
  event :: "nat \<Rightarrow> bool"
  stream :: "nat \<Rightarrow> frame"
  wpc :: "nat \<Rightarrow> worker_pc"

text \<open>
  \<open>G2Scanner.__init__\<close> fills the pool with the processors, each already running and
  waiting; \<open>scan\<close> calibrates (the boundaries \<open>bps\<close>) and starts the capture.
\<close>

definition init :: "config \<Rightarrow> nat list \<Rightarrow> 't sched" where
  "init cfg bps =
     \<lparr>pool = [0..<NUM_THREADS cfg], done_flag = False, taken = 0, image_times = [],
      current_bit_pattern = [], global_bin_pixels = bps, mpc = M_loop,
      event = (\<lambda>w. False), stream = (\<lambda>w. []), wpc = (\<lambda>w. W_wait)\<rparr>"

text \<open>
  One statement of the main thread. \<open>f\<close> is the frame the camera delivers, used at
  \<open>M_fill\<close> only. \<open>None\<close>: the thread does not advance in this state.
\<close>

definition main_step :: "config \<Rightarrow> frame \<Rightarrow> 't sched \<Rightarrow> 't sched option" where
  "main_step cfg f s =
     (case mpc s of
        M_loop \<Rightarrow> Some (s\<lparr>mpc := (if done_flag s then M_close else M_lock)\<rparr>)
      | M_lock \<Rightarrow>
          (if pool s \<noteq> [] then Some (s\<lparr>pool := butlast (pool s), mpc := M_fill (last (pool s))\<rparr>)
           else Some (s\<lparr>mpc := M_loop\<rparr>))
      | M_fill p \<Rightarrow> Some (s\<lparr>stream := (stream s)(p := f), mpc := M_set p\<rparr>)
      | M_set p \<Rightarrow> Some (s\<lparr>event := (event s)(p := True), mpc := M_loop\<rparr>)
      | M_close \<Rightarrow> (if length (pool s) = NUM_THREADS cfg then Some (s\<lparr>mpc := M_shutdown\<rparr>) else None)
      | M_shutdown \<Rightarrow> None)"

text \<open>
  One statement of processor \<open>w\<close>. \<open>t\<close> is \<open>systime()\<close>, used at \<open>W_accept\<close> only. The
  \<open>try\<close> block has a \<open>finally\<close> and no \<open>except\<close>: after the \<open>finally\<close> block an exception
  goes on and ends the thread.
\<close>

definition worker_step :: "config \<Rightarrow> nat \<Rightarrow> 't \<Rightarrow> 't sched \<Rightarrow> 't sched option" where
  "worker_step cfg w t s =
     (if \<not> w < NUM_THREADS cfg then None
      else case wpc s w of
        W_wait \<Rightarrow> (if event s w then Some (s\<lparr>wpc := (wpc s)(w := W_accept)\<rparr>) else None)
      | W_accept \<Rightarrow>
          Some (s\<lparr>image_times := image_times s @ [t], taken := taken s + 1,
                  done_flag := (if taken s + 1 \<ge> NUM_SCANS cfg then True else done_flag s),
                  wpc := (wpc s)(w := W_decode)\<rparr>)
      | W_decode \<Rightarrow>
          (case brightness (stream s w) (global_bin_pixels s) of
             Inl e \<Rightarrow> Some (s\<lparr>wpc := (wpc s)(w := W_finally True)\<rparr>)
           | Inr bits \<Rightarrow> Some (s\<lparr>wpc := (wpc s)(w := W_publish bits)\<rparr>))
      | W_publish bits \<Rightarrow>
          Some (s\<lparr>current_bit_pattern := bits, wpc := (wpc s)(w := W_finally False)\<rparr>)
      | W_finally raised \<Rightarrow>
          Some (s\<lparr>event := (event s)(w := False), wpc := (wpc s)(w := W_release raised)\<rparr>)
      | W_release raised \<Rightarrow>
          Some (s\<lparr>pool := pool s @ [w], wpc := (wpc s)(w := (if raised then W_dead else W_wait))\<rparr>)
      | W_dead \<Rightarrow> None)"

datatype 't action = Main frame | Work nat 't

fun step :: "config \<Rightarrow> 't action \<Rightarrow> 't sched \<Rightarrow> 't sched option" where
  "step cfg (Main f) s = main_step cfg f s"
| "step cfg (Work w t) s = worker_step cfg w t s"

fun run :: "config \<Rightarrow> 't action list \<Rightarrow> 't sched \<Rightarrow> 't sched option" where
  "run cfg [] s = Some s"
| "run cfg (a # as) s = (case step cfg a s of None \<Rightarrow> None | Some s' \<Rightarrow> run cfg as s')"

inductive reachable :: "config \<Rightarrow> nat list \<Rightarrow> 't sched \<Rightarrow> bool" for cfg bps where
  reach_init: "reachable cfg bps (init cfg bps)"
| reach_step: "reachable cfg bps s \<Longrightarrow> step cfg a s = Some s' \<Longrightarrow> reachable cfg bps s'"

text \<open>Who has processor \<open>w\<close> and its frame buffer.\<close>

definition in_pool :: "'t sched \<Rightarrow> nat \<Rightarrow> bool" where
  "in_pool s w \<longleftrightarrow> w \<in> set (pool s)"

definition main_holds :: "'t sched \<Rightarrow> nat \<Rightarrow> bool" where
  "main_holds s w \<longleftrightarrow> mpc s = M_fill w \<or> mpc s = M_set w"

definition worker_holds :: "'t sched \<Rightarrow> nat \<Rightarrow> bool" where
  "worker_holds s w \<longleftrightarrow> event s w \<or> (wpc s w \<noteq> W_wait \<and> wpc s w \<noteq> W_dead)"

definition session_complete :: "'t sched \<Rightarrow> bool" where
  "session_complete s \<longleftrightarrow> mpc s = M_shutdown"

text \<open>
  Frames that a processor will still count: it has been signalled and has not yet passed
  its first \<open>with lock\<close>, or the main thread is past \<open>while not done\<close> and on its way
  to signal one.
\<close>

definition signalled :: "'t sched \<Rightarrow> nat \<Rightarrow> bool" where
  "signalled s w \<longleftrightarrow> (event s w \<and> wpc s w = W_wait) \<or> wpc s w = W_accept"

definition pending :: "config \<Rightarrow> 't sched \<Rightarrow> nat" where
  "pending cfg s =
     length (filter (signalled s) [0..<NUM_THREADS cfg]) +
     (case mpc s of M_lock \<Rightarrow> 1 | M_fill p \<Rightarrow> 1 | M_set p \<Rightarrow> 1 | _ \<Rightarrow> 0)"

text \<open>
  The invariants of the interleaving. \<open>one_owner\<close>: the pool holds no processor twice, and
  every processor is in the pool, with the main thread, or with its own thread, and in one
  place only. \<open>release_clears\<close>: a processor about to return to the pool has cleared its
  event. \<open>counter_inv\<close>: the flag \<open>done\<close> is set exactly when \<open>taken\<close> has reached
  \<open>NUM_SCANS\<close>, and from then on at most \<open>pending\<close> more frames are counted.
\<close>

definition release_clears :: "'t sched \<Rightarrow> bool" where
  "release_clears s \<longleftrightarrow> (\<forall>w r. wpc s w = W_release r \<longrightarrow> \<not> event s w)"

definition one_owner :: "config \<Rightarrow> 't sched \<Rightarrow> bool" where
  "one_owner cfg s \<longleftrightarrow>
     distinct (pool s) \<and>
     (\<forall>w. in_pool s w \<or> main_holds s w \<longrightarrow> w < NUM_THREADS cfg) \<and>
     (\<forall>w<NUM_THREADS cfg.
        (in_pool s w \<and> \<not> main_holds s w \<and> \<not> worker_holds s w) \<or>
        (\<not> in_pool s w \<and> main_holds s w \<and> \<not> worker_holds s w) \<or>
        (\<not> in_pool s w \<and> \<not> main_holds s w \<and> worker_holds s w))"

definition counter_inv :: "config \<Rightarrow> 't sched \<Rightarrow> bool" where
  "counter_inv cfg s \<longleftrightarrow>
     (done_flag s \<longleftrightarrow> NUM_SCANS cfg \<le> taken s) \<and>
     (done_flag s \<longrightarrow> taken s + pending cfg s \<le> NUM_SCANS cfg + NUM_THREADS cfg) \<and>
     (mpc s = M_close \<or> mpc s = M_shutdown \<longrightarrow> done_flag s) \<and>
     (mpc s = M_shutdown \<longrightarrow> length (pool s) = NUM_THREADS cfg)"

section \<open>The processor of legacy/g2scanner_threaded2.py\<close>

text \<open>
  In this variant each processor calibrates its own frame. The luminance of calibration is
  \<open>(r + b + g) / 3.0\<close> on the 8-bit channel values of one pixel: the sum is taken in 8 bits
  and wraps. The luminance of the decode loop is \<open>(r*299 + g*587 + b*114) / 1000.0\<close> on
  channel means.
\<close>

definition luminosity2 :: "pixel \<Rightarrow> rat" where
  "luminosity2 p = (case p of (b, g, r) \<Rightarrow> of_nat (unat (r + b + g)) / 3)"

definition weighted2 :: "rat \<times> rat \<times> rat \<Rightarrow> rat" where
  "weighted2 m = (case m of (b, g, r) \<Rightarrow> (r * 299 + g * 587 + b * 114) / 1000)"

definition BLACK_BRIGHTNESS_MAX2 :: rat where
  "BLACK_BRIGHTNESS_MAX2 = 50"

record processor2 =
  array2 :: frame                \<comment> \<open>\<open>self.stream.array\<close>\<close>
  closed2 :: bool                \<comment> \<open>\<open>self.stream\<close> has been closed\<close>
  event2 :: bool                 \<comment> \<open>\<open>self.event\<close> is set\<close>
  scan_number2 :: nat
  bin_luminosity2 :: "rat list"
  bin_pixels2 :: "nat list"
  bit_pattern2 :: "nat list"
  scan_column2 :: nat
  printed2 :: "nat list list"    \<comment> \<open>what \<open>print self.bit_pattern\<close> has written\<close>

record 't shared2 =
  pool2 :: "nat list"
  taken2 :: nat
  done2 :: bool
  image_times2 :: "'t list"

text \<open>
  \<open>ImageProcessor._calibrate\<close>. Without a marker it closes the stream and calls
  \<open>self.close()\<close>, which an \<open>ImageProcessor\<close> does not have: an AttributeError (and the
  \<open>exit()\<close> after it would raise as well). \<open>np.arange\<close> with step 0, when both markers are
  the same row, raises too. In exact arithmetic \<open>np.arange(top, bottom + dp, dp)\<close> has the
  21 values \<open>top + i * dp\<close>.
\<close>

definition calibrate2 :: "processor2 \<Rightarrow> processor2 \<times> (error + unit)" where
  "calibrate2 self =
     (if array2 self = [] then (self, Inl IndexError)
      else if \<not> list_all (\<lambda>row. scan_column2 self < length row) (array2 self)
      then (self, Inl IndexError)
      else
        let self1 = self\<lparr>bin_luminosity2 := bin_luminosity2 self @
                      map (\<lambda>row. luminosity2 (row ! scan_column2 self)) (array2 self)\<rparr>;
            ROWS = length (array2 self)
        in case (find (\<lambda>i. bin_luminosity2 self1 ! i < BLACK_BRIGHTNESS_MAX2) [0..<ROWS],
                 find (\<lambda>i. bin_luminosity2 self1 ! i < BLACK_BRIGHTNESS_MAX2) (rev [0..<ROWS])) of
             (Some tbp, Some bbp) \<Rightarrow>
               (let dp = \<bar>(of_nat bbp - of_nat tbp) / 20\<bar> :: rat
                in if dp = 0 then (self1, Inl ZeroDivisionError)
                   else (self1\<lparr>bin_pixels2 :=
                           map (\<lambda>i. nat (py2_round (of_nat tbp + of_nat i * dp))) [0..<21]\<rparr>,
                         Inr ()))
           | _ \<Rightarrow> (self1\<lparr>closed2 := True\<rparr>, Inl AttributeError))"

text \<open>
  The loop of \<open>run\<close> that fills \<open>self.bit_pattern\<close>:
  \<open>np.average(self.stream.array[bin_pixels[i]:bin_pixels[i+1]][self.scan_column],0)\<close> takes
  the rows of the bin and then row number \<open>scan_column\<close> of these, an IndexError when the
  bin has no such row, and averages that row's pixels. The bits are appended one by one.
\<close>

fun decode_loop2 :: "frame \<Rightarrow> nat \<Rightarrow> nat list \<Rightarrow> nat list \<Rightarrow> nat list \<Rightarrow> nat list \<times> (error + unit)" where
  "decode_loop2 arr col bps [] acc = (acc, Inr ())"
| "decode_loop2 arr col bps (i # js) acc =
     (let rows = drop (bps ! i) (take (bps ! (i + 1)) arr)
      in if col < length rows
         then decode_loop2 arr col bps js
                (acc @ [if rows ! col \<noteq> [] \<and> weighted2 (channel_means (rows ! col)) < 95 then 1 else 0])
         else (acc, Inl IndexError))"

text \<open>\<open>ImageProcessor._rewind\<close>: \<open>seek\<close> on a closed stream is a ValueError.\<close>

definition rewind2 :: "nat \<Rightarrow> 't shared2 \<times> processor2 \<Rightarrow> ('t shared2 \<times> processor2) \<times> (error + unit)" where
  "rewind2 me st =
     (case st of (sh, self) \<Rightarrow>
        if closed2 self then ((sh, self), Inl ValueError)
        else ((sh\<lparr>pool2 := pool2 sh @ [me]\<rparr>, self\<lparr>event2 := False\<rparr>), Inr ()))"

text \<open>
  One turn of the loop of \<open>ImageProcessor.run\<close> once \<open>self.event.wait(1)\<close> has returned
  True, for the processor \<open>me\<close> at time \<open>t\<close>. \<open>Inr ()\<close>: the thread is back at the head of
  the loop. \<open>Inl e\<close>: the exception \<open>e\<close> has left \<open>run\<close> and the thread has ended. The
  \<open>finally\<close> block runs either way; an exception of its own replaces the one in flight.
\<close>

definition try_block2 :: "config \<Rightarrow> 't \<Rightarrow> 't shared2 \<times> processor2 \<Rightarrow> ('t shared2 \<times> processor2) \<times> (error + unit)" where
  "try_block2 cfg t st =
     (case st of (sh, self) \<Rightarrow>
        let sh1 = sh\<lparr>image_times2 := image_times2 sh @ [t], taken2 := taken2 sh + 1,
                     done2 := (if taken2 sh + 1 \<ge> NUM_SCANS cfg then True else done2 sh)\<rparr>;
            self1 = self\<lparr>scan_number2 := taken2 sh, bin_luminosity2 := [], bin_pixels2 := [],
                         bit_pattern2 := [], scan_column2 := 8\<rparr>
        in case calibrate2 self1 of
             (self2, Inl e) \<Rightarrow> ((sh1, self2), Inl e)
           | (self2, Inr u) \<Rightarrow>
               (case decode_loop2 (array2 self2) (scan_column2 self2) (bin_pixels2 self2)
                       [0..<length (bin_pixels2 self2) - 1] (bit_pattern2 self2) of
                  (bits, Inl e) \<Rightarrow> ((sh1, self2\<lparr>bit_pattern2 := bits\<rparr>), Inl e)
                | (bits, Inr u) \<Rightarrow>
                    ((sh1, self2\<lparr>bit_pattern2 := bits, printed2 := printed2 self2 @ [bits]\<rparr>), Inr ())))"

definition run_cycle2 :: "config \<Rightarrow> nat \<Rightarrow> 't \<Rightarrow> 't shared2 \<times> processor2 \<Rightarrow> ('t shared2 \<times> processor2) \<times> (error + unit)" where
  "run_cycle2 cfg me t st =
     (case try_block2 cfg t st of
        (st1, raised) \<Rightarrow>
          (case rewind2 me st1 of
             (st2, Inl e) \<Rightarrow> (st2, Inl e)
           | (st2, Inr u) \<Rightarrow> (st2, raised)))"

definition grey60 :: pixel where
  "grey60 = (60, 60, 60)"


section \<open>Marker rows and bin boundaries\<close>

lemma find_top_Some:
  "find_top lums thr = Some t \<longleftrightarrow> t < length lums \<and> lums ! t < thr \<and> (\<forall>j<t. \<not> lums ! j < thr)"
  unfolding find_top_def find_Some_iff
  by auto

lemma find_top_None:
  "find_top lums thr = None \<longleftrightarrow> (\<forall>i<length lums. \<not> lums ! i < thr)"
  unfolding find_top_def find_None_iff
  by auto


lemma find_rev_upt_Some:
  "find P (rev [0..<n]) = Some b \<longleftrightarrow> b < n \<and> P b \<and> (\<forall>j. b < j \<and> j < n \<longrightarrow> \<not> P j)"
proof (induction n)
  case 0
  show ?case by simp
next
  case (Suc n)
  show ?case
  proof (cases "P n")
    case True
    then show ?thesis
      by (auto simp: less_Suc_eq) 
  next
    case False
    then show ?thesis
      using Suc by (auto simp: less_Suc_eq)
  qed
qed

lemma find_bottom_Some:
  "find_bottom lums thr = Some b \<longleftrightarrow>
     b < length lums \<and> lums ! b < thr \<and> (\<forall>j. b < j \<and> j < length lums \<longrightarrow> \<not> lums ! j < thr)"
  unfolding find_bottom_def by (rule find_rev_upt_Some)

lemma find_top_le_bottom:
  assumes "find_top lums thr = Some t" "find_bottom lums thr = Some b"
  shows "t \<le> b"
proof (rule ccontr)
  assume "\<not> t \<le> b"
  then have "b < t" by simp
  moreover have "\<forall>j<t. \<not> lums ! j < thr" using assms(1) by (simp add: find_top_Some)
  moreover have "lums ! b < thr" using assms(2) by (simp add: find_bottom_Some)
  ultimately show False by blast
qed

lemma column_lums_shape:
  assumes "frame_shape arr ROWS COLS" "c < COLS"
  shows "column_lums arr c = Inr (map (\<lambda>row. lum (row ! c)) arr)"
proof -
  have "list_all (\<lambda>row. c < length row) arr"
    using assms by (auto simp: frame_shape_def list_all_iff)
  then show ?thesis by (simp add: column_lums_def)
qed

lemma scan_column_of_less: "max_edge < 16 \<Longrightarrow> scan_column_of max_edge < 16"
  unfolding scan_column_of_def by (cases "9 < max_edge") simp_all

lemma analyse_shape:
  assumes "frame_shape arr ROWS 16" "0 < ROWS" "max_edge < 16"
  shows "snd (analyse now max_edge arr self) =
     (let temp_lums = map (\<lambda>row. lum (row ! 8)) arr;
          lums = map (\<lambda>row. lum (row ! scan_column_of max_edge)) arr
      in case (find_top temp_lums BLACK_LUM_MAX, find_bottom temp_lums BLACK_LUM_MAX) of
           (Some tbp, Some bbp) \<Rightarrow>
              Inr (Some \<lparr>top_bar_pixel = tbp, bottom_bar_pixel = bbp,
                 bin_pixels = bin_pixels_of tbp bbp, scan_column = scan_column_of max_edge,
                 bin_bits = decode lums (bin_pixels_of tbp bbp)\<rparr>)
         | _ \<Rightarrow> Inr None)"
proof -
  have ne: "arr \<noteq> []" using assms(1,2) by (auto simp: frame_shape_def)
  have c8: "column_lums arr 8 = Inr (map (\<lambda>row. lum (row ! 8)) arr)"
    using assms(1) by (rule column_lums_shape) simp
  have cs: "column_lums arr (scan_column_of max_edge) = Inr (map (\<lambda>row. lum (row ! scan_column_of max_edge)) arr)"
    using assms(1) scan_column_of_less[OF assms(3)] by (rule column_lums_shape)
  show ?thesis
    by (simp add: analyse_def Let_def ne c8 cs split: option.splits)
qed


lemma length_decode: "length (decode lums bps) = length bps - 1"
  by (simp add: decode_def)

lemma length_bin_pixels_of: "length (bin_pixels_of t b) = 21"
  by (simp add: bin_pixels_of_def linspace_def)


lemma py2_round_nonneg:
  assumes "0 < d"
  shows "py2_round (of_nat a / of_nat d) = int ((2 * a + d) div (2 * d))"
proof -
  have "(of_nat a / of_nat d :: rat) + 1 / 2 = of_int (int (2 * a + d)) / of_int (int (2 * d))"
    using assms by (simp add: field_simps)
  then have "\<lfloor>(of_nat a / of_nat d :: rat) + 1 / 2\<rfloor> = int (2 * a + d) div int (2 * d)"
    by (simp only: floor_divide_of_int_eq)
  then show ?thesis
    by (simp add: py2_round_def zdiv_int)
qed

lemma bin_pixels_of_nth:
  assumes "i \<le> 20" "t \<le> b"
  shows "bin_pixels_of t b ! i = t + (i * (b - t) + 10) div 20"
proof -
  have eq: "(of_nat t :: rat) + of_nat i * ((of_nat b - of_nat t) / of_nat (21 - 1))
      = of_nat (20 * t + i * (b - t)) / of_nat 20"
    using assms(2) by (simp add: field_simps of_nat_diff)
  have "bin_pixels_of t b ! i = nat (py2_round (of_nat (20 * t + i * (b - t)) / of_nat 20))"
    using assms(1) unfolding bin_pixels_of_def linspace_def
    by (simp only: eq[symmetric] nth_map length_map length_upt nth_upt) simp
  also have "\<dots> = (2 * (20 * t + i * (b - t)) + 20) div 40"
    by (simp only: py2_round_nonneg) simp
  also have "\<dots> = t + (i * (b - t) + 10) div 20"
    by presburger
  finally show ?thesis .
qed

lemma bin_pixels_of_first: "t \<le> b \<Longrightarrow> bin_pixels_of t b ! 0 = t"
  by (simp add: bin_pixels_of_nth)

lemma bin_pixels_of_last: "t \<le> b \<Longrightarrow> bin_pixels_of t b ! 20 = b"
  by (simp add: bin_pixels_of_nth)

lemma bin_pixels_of_mono:
  assumes "t \<le> b" "i \<le> j" "j \<le> 20"
  shows "bin_pixels_of t b ! i \<le> bin_pixels_of t b ! j"
proof -
  have "i * (b - t) \<le> j * (b - t)" using assms(2) by (rule mult_le_mono1)
  then have "(i * (b - t) + 10) div 20 \<le> (j * (b - t) + 10) div 20"
    by (intro div_le_mono) simp
  then show ?thesis using assms by (simp add: bin_pixels_of_nth)
qed

lemma bin_pixels_of_strict:
  assumes "t + 20 \<le> b" "i < 20"
  shows "bin_pixels_of t b ! i < bin_pixels_of t b ! (i + 1)"
proof -
  define s where "s = b - t"
  have s: "20 \<le> s" and tb: "t \<le> b" using assms(1) by (simp_all add: s_def)
  have "(i * s + 10) div 20 + 1 = (i * s + 10 + 20) div 20" by simp
  also have "\<dots> \<le> ((i + 1) * s + 10) div 20" using s by (intro div_le_mono) simp
  finally have "(i * s + 10) div 20 < ((i + 1) * s + 10) div 20" by simp
  then show ?thesis using assms(2) tb by (simp add: bin_pixels_of_nth s_def)
qed

lemma strict_chain:
  fixes f :: "nat \<Rightarrow> nat"
  assumes "\<forall>i<n. f i < f (i + 1)"
  shows "f 0 + n \<le> f n"
  using assms by (induction n) (auto simp: less_Suc_eq Suc_le_eq intro: le_less_trans)

lemma bin_pixels_of_collapse:
  assumes "t \<le> b" "b < t + 20"
  shows "\<exists>i<20. bin_pixels_of t b ! i = bin_pixels_of t b ! (i + 1)"
proof (rule ccontr)
  assume "\<not> ?thesis"
  then have "\<forall>i<20. bin_pixels_of t b ! i < bin_pixels_of t b ! (i + 1)"
    using bin_pixels_of_mono[OF assms(1)] by (metis Suc_eq_plus1 Suc_leI le_add1 le_neq_implies_less)
  then have "bin_pixels_of t b ! 0 + 20 \<le> bin_pixels_of t b ! 20"
    by (rule strict_chain)
  then show False using assms by (simp add: bin_pixels_of_first bin_pixels_of_last)
qed


lemma analyse_fst:
  "fst (analyse now max_edge arr self) =
     self\<lparr>scan_times := scan_times self @ [now], num_scans := num_scans self + 1\<rparr>"
  by (simp add: analyse_def Let_def split: sum.splits option.splits)



section \<open>Decoding and bin boundaries\<close>

lemma frame_shape_striped: "length ps = n \<Longrightarrow> frame_shape (striped ps) n 16"
  by (auto simp: frame_shape_def striped_def list_all_iff)

lemma striped_column: "c < 16 \<Longrightarrow> map (\<lambda>row. lum (row ! c)) (striped ps) = map lum ps"
  by (simp add: striped_def)

lemma column_lums_striped: "c < 16 \<Longrightarrow> column_lums (striped ps) c = Inr (map lum ps)"
  by (simp add: column_lums_def striped_def list_all_iff)

lemma analyse_striped:
  assumes "ps \<noteq> []" "max_edge < 16"
  shows "snd (analyse now max_edge (striped ps) self) =
     (case find_top (map lum ps) BLACK_LUM_MAX of
        None \<Rightarrow> Inr None
      | Some tbp \<Rightarrow>
          (case find_bottom (map lum ps) BLACK_LUM_MAX of
             None \<Rightarrow> Inr None
           | Some bbp \<Rightarrow>
               Inr (Some \<lparr>top_bar_pixel = tbp, bottom_bar_pixel = bbp,
                  bin_pixels = bin_pixels_of tbp bbp, scan_column = scan_column_of max_edge,
                  bin_bits = decode (map lum ps) (bin_pixels_of tbp bbp)\<rparr>)))"
proof -
  have ne: "striped ps \<noteq> []" using assms(1) by (simp add: striped_def)
  have c: "scan_column_of max_edge < 16" using assms(2) by (rule scan_column_of_less)
  show ?thesis
    by (simp add: analyse_def Let_def ne column_lums_striped c split: option.splits)
qed

lemma bin_pixels_of_eq:
  assumes "t \<le> b"
  shows "bin_pixels_of t b = map (\<lambda>i. t + (i * (b - t) + 10) div 20) [0..<21]"
proof (rule nth_equalityI)
  show "length (bin_pixels_of t b) = length (map (\<lambda>i. t + (i * (b - t) + 10) div 20) [0..<21])"
    by (simp add: length_bin_pixels_of)
next
  fix i assume "i < length (bin_pixels_of t b)"
  then have i: "i < 21" by (simp add: length_bin_pixels_of)
  then have "i \<le> 20" by simp
  from bin_pixels_of_nth[OF this assms] i
  show "bin_pixels_of t b ! i = map (\<lambda>i. t + (i * (b - t) + 10) div 20) [0..<21] ! i"
    by simp
qed


lemma upt_21: "[0..<21] = [0, 1, 2, 3, 4, 5, 6, 7, 8, 9, 10, 11, 12, 13, 14, 15, 16, 17, 18, 19, 20]"
  by (simp add: upt_rec)

lemma upt_20: "[0..<20] = [0, 1, 2, 3, 4, 5, 6, 7, 8, 9, 10, 11, 12, 13, 14, 15, 16, 17, 18, 19]"
  by (simp add: upt_rec)

lemma decode_21:
  "length bps = 21 \<Longrightarrow> decode lums bps =
     map (\<lambda>i. bin_bit lums (bps ! i) (bps ! (i + 1)))
       [0, 1, 2, 3, 4, 5, 6, 7, 8, 9, 10, 11, 12, 13, 14, 15, 16, 17, 18, 19]"
  by (simp add: decode_def upt_20)

lemma analyse_striped_found:
  assumes "ps \<noteq> []" "max_edge < 16"
    and "find_top (map lum ps) BLACK_LUM_MAX = Some tbp"
    and "find_bottom (map lum ps) BLACK_LUM_MAX = Some bbp"
    and "bin_pixels_of tbp bbp = bps"
    and "decode (map lum ps) bps = bits"
  shows "snd (analyse now max_edge (striped ps) self) =
     Inr (Some \<lparr>top_bar_pixel = tbp, bottom_bar_pixel = bbp, bin_pixels = bps,
       scan_column = scan_column_of max_edge, bin_bits = bits\<rparr>)"
  using assms(3-6) by (simp add: analyse_striped[OF assms(1,2)])


lemma analyse_success:
  assumes "frame_shape arr ROWS 16" "0 < ROWS" "max_edge < 16"
    and "snd (analyse now max_edge arr self) = Inr (Some a)"
  shows "find_top (map (\<lambda>row. lum (row ! 8)) arr) BLACK_LUM_MAX = Some (top_bar_pixel a)"
    and "find_bottom (map (\<lambda>row. lum (row ! 8)) arr) BLACK_LUM_MAX = Some (bottom_bar_pixel a)"
    and "bin_pixels a = bin_pixels_of (top_bar_pixel a) (bottom_bar_pixel a)"
    and "scan_column a = scan_column_of max_edge"
    and "bin_bits a = decode (map (\<lambda>row. lum (row ! scan_column_of max_edge)) arr) (bin_pixels a)"
  using assms(4) unfolding analyse_shape[OF assms(1-3)] Let_def
  by (auto split: option.splits)

lemma analyse_success_order:
  assumes "frame_shape arr ROWS 16" "0 < ROWS" "max_edge < 16"
    and "snd (analyse now max_edge arr self) = Inr (Some a)"
  shows "top_bar_pixel a \<le> bottom_bar_pixel a" and "bottom_bar_pixel a < ROWS"
proof -
  show "top_bar_pixel a \<le> bottom_bar_pixel a"
    using analyse_success(1,2)[OF assms] by (rule find_top_le_bottom)
  show "bottom_bar_pixel a < ROWS"
    using analyse_success(2)[OF assms] assms(1) by (simp add: find_bottom_Some frame_shape_def)
qed


lemma analyse_markers_2_apart_b:
  "snd (analyse (0::nat) 12 (striped (replicate 5 white @ [black, white, black])) \<lparr>scan_times = [], num_scans = 0\<rparr>) =
     Inr (Some \<lparr>top_bar_pixel = 5, bottom_bar_pixel = 7,
       bin_pixels = [5, 5, 5, 5, 5, 6, 6, 6, 6, 6, 6, 6, 6, 6, 6, 7, 7, 7, 7, 7, 7],
       scan_column = 8,
       bin_bits = [1, 1, 1, 1, 1, 1, 1, 1, 1, 1, 1, 1, 1, 1, 0, 1, 1, 1, 1, 1]\<rparr>)"
proof -
  have l: "map lum (replicate 5 white @ [black, white, black]) = replicate 5 765 @ [0, 765, 0]"
    by (simp add: lum_def black_def white_def)
  have "snd (analyse (0::nat) 12 (striped (replicate 5 white @ [black, white, black])) \<lparr>scan_times = [], num_scans = 0\<rparr>) =
     Inr (Some \<lparr>top_bar_pixel = 5, bottom_bar_pixel = 7,
       bin_pixels = [5, 5, 5, 5, 5, 6, 6, 6, 6, 6, 6, 6, 6, 6, 6, 7, 7, 7, 7, 7, 7],
       scan_column = scan_column_of 12,
       bin_bits = [1, 1, 1, 1, 1, 1, 1, 1, 1, 1, 1, 1, 1, 1, 0, 1, 1, 1, 1, 1]\<rparr>)"
  proof (rule analyse_striped_found)
    show "find_top (map lum (replicate 5 white @ [black, white, black])) BLACK_LUM_MAX = Some 5"
      unfolding l by (simp add: find_top_Some BLACK_LUM_MAX_def nth_append)
    show "find_bottom (map lum (replicate 5 white @ [black, white, black])) BLACK_LUM_MAX = Some 7"
      unfolding l by (simp add: find_bottom_Some BLACK_LUM_MAX_def nth_append)
    show "bin_pixels_of 5 7 = [5, 5, 5, 5, 5, 6, 6, 6, 6, 6, 6, 6, 6, 6, 6, 7, 7, 7, 7, 7, 7]"
      by (simp add: bin_pixels_of_eq upt_21)
    show "decode (map lum (replicate 5 white @ [black, white, black]))
        [5, 5, 5, 5, 5, 6, 6, 6, 6, 6, 6, 6, 6, 6, 6, 7, 7, 7, 7, 7, 7]
      = [1, 1, 1, 1, 1, 1, 1, 1, 1, 1, 1, 1, 1, 1, 0, 1, 1, 1, 1, 1]"
      unfolding l by (simp add: decode_21 bin_bit_def bin_sum_def BLACK_LUM_MAX_def sum_list_replicate)
  qed simp_all
  then show ?thesis by (simp add: scan_column_of_def)
qed

lemma analyse_markers_1_apart:
  "snd (analyse (0::nat) 12 (striped (replicate 5 white @ [black, black, white])) \<lparr>scan_times = [], num_scans = 0\<rparr>) =
     Inr (Some \<lparr>top_bar_pixel = 5, bottom_bar_pixel = 6,
       bin_pixels = [5, 5, 5, 5, 5, 5, 5, 5, 5, 5, 6, 6, 6, 6, 6, 6, 6, 6, 6, 6, 6],
       scan_column = 8,
       bin_bits = [1, 1, 1, 1, 1, 1, 1, 1, 1, 1, 1, 1, 1, 1, 1, 1, 1, 1, 1, 1]\<rparr>)"
proof -
  have l: "map lum (replicate 5 white @ [black, black, white]) = replicate 5 765 @ [0, 0, 765]"
    by (simp add: lum_def black_def white_def)
  have "snd (analyse (0::nat) 12 (striped (replicate 5 white @ [black, black, white])) \<lparr>scan_times = [], num_scans = 0\<rparr>) =
     Inr (Some \<lparr>top_bar_pixel = 5, bottom_bar_pixel = 6,
       bin_pixels = [5, 5, 5, 5, 5, 5, 5, 5, 5, 5, 6, 6, 6, 6, 6, 6, 6, 6, 6, 6, 6],
       scan_column = scan_column_of 12,
       bin_bits = [1, 1, 1, 1, 1, 1, 1, 1, 1, 1, 1, 1, 1, 1, 1, 1, 1, 1, 1, 1]\<rparr>)"
  proof (rule analyse_striped_found)
    show "find_top (map lum (replicate 5 white @ [black, black, white])) BLACK_LUM_MAX = Some 5"
      unfolding l by (simp add: find_top_Some BLACK_LUM_MAX_def nth_append)
    show "find_bottom (map lum (replicate 5 white @ [black, black, white])) BLACK_LUM_MAX = Some 6"
      unfolding l by (simp add: find_bottom_Some BLACK_LUM_MAX_def nth_append)
    show "bin_pixels_of 5 6 = [5, 5, 5, 5, 5, 5, 5, 5, 5, 5, 6, 6, 6, 6, 6, 6, 6, 6, 6, 6, 6]"
      by (simp add: bin_pixels_of_eq upt_21)
    show "decode (map lum (replicate 5 white @ [black, black, white]))
        [5, 5, 5, 5, 5, 5, 5, 5, 5, 5, 6, 6, 6, 6, 6, 6, 6, 6, 6, 6, 6]
      = [1, 1, 1, 1, 1, 1, 1, 1, 1, 1, 1, 1, 1, 1, 1, 1, 1, 1, 1, 1]"
      unfolding l by (simp add: decode_21 bin_bit_def bin_sum_def BLACK_LUM_MAX_def sum_list_replicate)
  qed simp_all
  then show ?thesis by (simp add: scan_column_of_def)
qed



lemma analyse_grey_bin:
  "snd (analyse (0::nat) 12 (striped (black # replicate 14 white @ replicate 15 (70, 70, 69) @ replicate 269 white @ [black])) \<lparr>scan_times = [], num_scans = 0\<rparr>) =
     Inr (Some \<lparr>top_bar_pixel = 0, bottom_bar_pixel = 299,
       bin_pixels = [0, 15, 30, 45, 60, 75, 90, 105, 120, 135, 150, 164, 179, 194, 209, 224, 239, 254, 269, 284, 299],
       scan_column = 8,
       bin_bits = [0, 1, 0, 0, 0, 0, 0, 0, 0, 0, 0, 0, 0, 0, 0, 0, 0, 0, 0, 0]\<rparr>)"
proof -
  have l: "map lum (black # replicate 14 white @ replicate 15 (70, 70, 69) @ replicate 269 white @ [black]) = 0 # replicate 14 765 @ replicate 15 209 @ replicate 269 765 @ [0]"
    by (simp add: lum_def black_def white_def)
  have "snd (analyse (0::nat) 12 (striped (black # replicate 14 white @ replicate 15 (70, 70, 69) @ replicate 269 white @ [black])) \<lparr>scan_times = [], num_scans = 0\<rparr>) =
     Inr (Some \<lparr>top_bar_pixel = 0, bottom_bar_pixel = 299,
       bin_pixels = [0, 15, 30, 45, 60, 75, 90, 105, 120, 135, 150, 164, 179, 194, 209, 224, 239, 254, 269, 284, 299],
       scan_column = scan_column_of 12,
       bin_bits = [0, 1, 0, 0, 0, 0, 0, 0, 0, 0, 0, 0, 0, 0, 0, 0, 0, 0, 0, 0]\<rparr>)"
  proof (rule analyse_striped_found)
    show "find_top (map lum (black # replicate 14 white @ replicate 15 (70, 70, 69) @ replicate 269 white @ [black])) BLACK_LUM_MAX = Some 0"
      unfolding l by (simp add: find_top_Some BLACK_LUM_MAX_def nth_append)
    show "find_bottom (map lum (black # replicate 14 white @ replicate 15 (70, 70, 69) @ replicate 269 white @ [black])) BLACK_LUM_MAX = Some 299"
      unfolding l by (simp add: find_bottom_Some BLACK_LUM_MAX_def nth_append)
    show "bin_pixels_of 0 299 = [0, 15, 30, 45, 60, 75, 90, 105, 120, 135, 150, 164, 179, 194, 209, 224, 239, 254, 269, 284, 299]"
      by (simp add: bin_pixels_of_eq upt_21)
    show "decode (map lum (black # replicate 14 white @ replicate 15 (70, 70, 69) @ replicate 269 white @ [black]))
        [0, 15, 30, 45, 60, 75, 90, 105, 120, 135, 150, 164, 179, 194, 209, 224, 239, 254, 269, 284, 299]
      = [0, 1, 0, 0, 0, 0, 0, 0, 0, 0, 0, 0, 0, 0, 0, 0, 0, 0, 0, 0]"
      unfolding l by (simp add: decode_21 bin_bit_def bin_sum_def BLACK_LUM_MAX_def sum_list_replicate)
  qed simp_all
  then show ?thesis by (simp add: scan_column_of_def)
qed






lemma empty_slice: "bp \<le> tp \<Longrightarrow> drop tp (take bp lums) = []"
  by simp

lemma bin_bit_empty: "bp \<le> tp \<Longrightarrow> bin_bit lums tp bp = 1"
  by (simp add: bin_bit_def bin_sum_def BLACK_LUM_MAX_def)

text \<open>
  Claim C5, as the code has it. No boundary is nudged: the rounded positions are used as
  they are. Every bin has positive height exactly when the markers are at least 20 rows
  apart. The decode loop still returns 20 bits: for a bin of height zero the slice
  \<open>lums[tp:bp]\<close> is empty, so nothing is divided, the sum is 0 and the bit is 1.
\<close>

theorem bin_heights:
  assumes "frame_shape arr ROWS 16" "0 < ROWS" "max_edge < 16"
    and "snd (analyse now max_edge arr self) = Inr (Some a)"
  shows "((\<forall>i<20. bin_pixels a ! i < bin_pixels a ! (i + 1)) \<longleftrightarrow>
            top_bar_pixel a + 20 \<le> bottom_bar_pixel a) \<and>
     length (bin_bits a) = 20 \<and>
     (\<forall>i<20. bin_pixels a ! i = bin_pixels a ! (i + 1) \<longrightarrow>
        drop (bin_pixels a ! i) (take (bin_pixels a ! (i + 1))
          (map (\<lambda>row. lum (row ! scan_column a)) arr)) = [] \<and> bin_bits a ! i = 1)"
proof -
  let ?t = "top_bar_pixel a" and ?b = "bottom_bar_pixel a"
  have bp: "bin_pixels a = bin_pixels_of ?t ?b" by (rule analyse_success(3)[OF assms])
  have tb: "?t \<le> ?b" by (rule analyse_success_order[OF assms])
  have bb: "bin_bits a = decode (map (\<lambda>row. lum (row ! scan_column a)) arr) (bin_pixels a)"
    using analyse_success(4,5)[OF assms] by simp
  have len: "length (bin_bits a) = 20"
    by (simp add: bb length_decode bp length_bin_pixels_of)
  have iff: "(\<forall>i<20. bin_pixels a ! i < bin_pixels a ! (i + 1)) \<longleftrightarrow> ?t + 20 \<le> ?b"
  proof
    assume all: "\<forall>i<20. bin_pixels a ! i < bin_pixels a ! (i + 1)"
    show "?t + 20 \<le> ?b"
    proof (rule ccontr)
      assume "\<not> ?t + 20 \<le> ?b"
      then have "?b < ?t + 20" by simp
      from bin_pixels_of_collapse[OF tb this] all show False by (auto simp: bp)
    qed
  next
    assume "?t + 20 \<le> ?b"
    then show "\<forall>i<20. bin_pixels a ! i < bin_pixels a ! (i + 1)"
      unfolding bp by (intro allI impI bin_pixels_of_strict)
  qed
  have zero: "\<forall>i<20. bin_pixels a ! i = bin_pixels a ! (i + 1) \<longrightarrow>
        drop (bin_pixels a ! i) (take (bin_pixels a ! (i + 1))
          (map (\<lambda>row. lum (row ! scan_column a)) arr)) = [] \<and> bin_bits a ! i = 1"
  proof (intro allI impI)
    fix i :: nat assume i: "i < 20" and eq: "bin_pixels a ! i = bin_pixels a ! (i + 1)"
    have "bin_bits a ! i =
        bin_bit (map (\<lambda>row. lum (row ! scan_column a)) arr) (bin_pixels a ! i) (bin_pixels a ! (i + 1))"
      using i by (subst bb) (simp add: decode_def bp length_bin_pixels_of)
    then show "drop (bin_pixels a ! i) (take (bin_pixels a ! (i + 1))
          (map (\<lambda>row. lum (row ! scan_column a)) arr)) = [] \<and> bin_bits a ! i = 1"
      using eq by (simp add: bin_bit_empty)
  qed
  show ?thesis using iff len zero by blast
qed

theorem bin_heights_witness:
  "frame_shape (striped (replicate 5 white @ [black, white, black])) 8 16 \<and> (0::nat) < 8 \<and> (12::nat) < 16 \<and>
   snd (analyse (0::nat) 12 (striped (replicate 5 white @ [black, white, black])) \<lparr>scan_times = [], num_scans = 0\<rparr>) =
     Inr (Some \<lparr>top_bar_pixel = 5, bottom_bar_pixel = 7,
       bin_pixels = [5, 5, 5, 5, 5, 6, 6, 6, 6, 6, 6, 6, 6, 6, 6, 7, 7, 7, 7, 7, 7],
       scan_column = 8,
       bin_bits = [1, 1, 1, 1, 1, 1, 1, 1, 1, 1, 1, 1, 1, 1, 0, 1, 1, 1, 1, 1]\<rparr>) \<and>
   \<not> (5::nat) + 20 \<le> 7"
proof -
  have h: "frame_shape (striped (replicate 5 white @ [black, white, black])) 8 16"
    by (rule frame_shape_striped) simp
  note e = analyse_markers_2_apart_b
  have "(0::nat) < 8" "(12::nat) < 16" by simp_all
  from bin_heights[OF h this e] show ?thesis using h e by simp
qed

theorem nudge_counterexample:
  "snd (analyse (0::nat) 12 (striped (replicate 5 white @ [black, black, white])) \<lparr>scan_times = [], num_scans = 0\<rparr>) =
     Inr (Some \<lparr>top_bar_pixel = 5, bottom_bar_pixel = 6,
       bin_pixels = [5, 5, 5, 5, 5, 5, 5, 5, 5, 5, 6, 6, 6, 6, 6, 6, 6, 6, 6, 6, 6],
       scan_column = 8,
       bin_bits = [1, 1, 1, 1, 1, 1, 1, 1, 1, 1, 1, 1, 1, 1, 1, 1, 1, 1, 1, 1]\<rparr>)"
  by (rule analyse_markers_1_apart)


text \<open>
  Claim C7 at a 300-row frame whose rows 15 to 29 (bin 1) have luminance 209 in every
  column: each row contributes \<open>209 div 15 = 13\<close>, the sum is 195, below 200, and the bit is
  1, although the average luminance of the bin is 209, not below the threshold of 200.
\<close>

theorem floor_division_in_decode:
  "snd (analyse (0::nat) 12
      (striped (black # replicate 14 white @ replicate 15 (70, 70, 69) @ replicate 269 white @ [black]))
      \<lparr>scan_times = [], num_scans = 0\<rparr>) =
     Inr (Some \<lparr>top_bar_pixel = 0, bottom_bar_pixel = 299,
       bin_pixels = [0, 15, 30, 45, 60, 75, 90, 105, 120, 135, 150, 164, 179, 194, 209, 224, 239, 254, 269, 284, 299],
       scan_column = 8,
       bin_bits = [0, 1, 0, 0, 0, 0, 0, 0, 0, 0, 0, 0, 0, 0, 0, 0, 0, 0, 0, 0]\<rparr>) \<and>
   drop 15 (take 30 (map lum (black # replicate 14 white @ replicate 15 (70, 70, 69) @ replicate 269 white @ [black])))
     = replicate 15 209 \<and>
   bin_sum (replicate 30 209) 15 30 = 195 \<and> \<not> (209 < 2 * BLACK_LUM_MAX)"
proof -
  have "drop 15 (take 30 (map lum (black # replicate 14 white @ replicate 15 (70, 70, 69) @ replicate 269 white @ [black])))
     = replicate 15 209"
    by (simp add: lum_def black_def white_def)
  moreover have "bin_sum (replicate 30 209) 15 30 = 195"
    by (simp add: bin_sum_def sum_list_replicate)
  ultimately show ?thesis
    using analyse_grey_bin by (simp add: BLACK_LUM_MAX_def)
qed

text \<open>
  Claim C8, as the code has it. \<open>analyse\<close> appends the time stamp and advances \<open>num_scans\<close>
  before it looks at the frame, so both happen for every frame; a frame with no row below
  the threshold in column 8 then returns without a pattern.
\<close>

theorem analyse_counts_every_frame:
  "fst (analyse now max_edge arr self) =
      self\<lparr>scan_times := scan_times self @ [now], num_scans := num_scans self + 1\<rparr> \<and>
   (frame_shape arr ROWS 16 \<and> 0 < ROWS \<and> max_edge < 16 \<and>
    (\<forall>i<ROWS. \<not> lum (arr ! i ! 8) < BLACK_LUM_MAX) \<longrightarrow>
      snd (analyse now max_edge arr self) = Inr None)"
proof (intro conjI impI)
  show "fst (analyse now max_edge arr self) =
      self\<lparr>scan_times := scan_times self @ [now], num_scans := num_scans self + 1\<rparr>"
    by (rule analyse_fst)
next
  assume a: "frame_shape arr ROWS 16 \<and> 0 < ROWS \<and> max_edge < 16 \<and>
    (\<forall>i<ROWS. \<not> lum (arr ! i ! 8) < BLACK_LUM_MAX)"
  then have h: "frame_shape arr ROWS 16" "0 < ROWS" "max_edge < 16" by simp_all
  have "find_top (map (\<lambda>row. lum (row ! 8)) arr) BLACK_LUM_MAX = None"
    using a by (simp add: find_top_None frame_shape_def)
  then show "snd (analyse now max_edge arr self) = Inr None"
    by (simp add: analyse_shape[OF h])
qed

theorem analyse_counts_every_frame_witness:
  "frame_shape (striped [white, white, white]) 3 16 \<and>
   analyse (7::nat) 12 (striped [white, white, white]) \<lparr>scan_times = [3], num_scans = 1\<rparr> =
     (\<lparr>scan_times = [3, 7], num_scans = 2\<rparr>, Inr None)"
proof -
  have h: "frame_shape (striped [white, white, white]) 3 16"
    by (rule frame_shape_striped) simp
  have n: "\<forall>i<3. \<not> lum (striped [white, white, white] ! i ! 8) < BLACK_LUM_MAX"
    by (auto simp: less_Suc_eq numeral_3_eq_3 striped_def white_def lum_def BLACK_LUM_MAX_def)
  from analyse_counts_every_frame[of "7::nat" 12 "striped [white, white, white]"
      "\<lparr>scan_times = [3], num_scans = 1\<rparr>" 3] h n
  show ?thesis by (simp add: prod_eq_iff)
qed

theorem skipped_frame_counted_counterexample:
  "snd (analyse (9::nat) 0 (striped [white, white]) \<lparr>scan_times = [], num_scans = 0\<rparr>) = Inr None \<and>
   num_scans (fst (analyse (9::nat) 0 (striped [white, white]) \<lparr>scan_times = [], num_scans = 0\<rparr>)) = 1 \<and>
   scan_times (fst (analyse (9::nat) 0 (striped [white, white]) \<lparr>scan_times = [], num_scans = 0\<rparr>)) = [9]"
  by code_simp

section \<open>Ownership of the frame buffers\<close>

lemma reachable_run:
  "reachable cfg bps s \<Longrightarrow> run cfg as s = Some s' \<Longrightarrow> reachable cfg bps s'"
proof (induction as arbitrary: s)
  case Nil
  then show ?case by simp
next
  case (Cons a as)
  then show ?case
    by (auto split: option.splits intro: reach_step)
qed


lemma in_butlast:
  assumes "distinct xs" "xs \<noteq> []"
  shows "w \<in> set (butlast xs) \<longleftrightarrow> w \<in> set xs \<and> w \<noteq> last xs"
proof -
  have "xs = butlast xs @ [last xs]" using assms(2) by simp
  then have "distinct (butlast xs @ [last xs])" "set xs = set (butlast xs @ [last xs])"
    using assms(1) by simp_all
  then show ?thesis by auto
qed

lemma one_owner_init: "one_owner cfg (init cfg bps)" "release_clears (init cfg bps)"
  by (auto simp: one_owner_def release_clears_def init_def in_pool_def main_holds_def worker_holds_def)

lemma one_owner_frame:
  assumes "one_owner cfg s" "release_clears s"
    and "pool s' = pool s" "event s' = event s" "wpc s' = wpc s"
    and "\<forall>w. main_holds s' w \<longleftrightarrow> main_holds s w"
  shows "one_owner cfg s' \<and> release_clears s'"
  using assms unfolding one_owner_def release_clears_def in_pool_def worker_holds_def
  by simp

lemma one_owner_pop:
  assumes "one_owner cfg s" "release_clears s" "mpc s = M_lock" "pool s \<noteq> []"
    and s': "s' = s\<lparr>pool := butlast (pool s), mpc := M_fill (last (pool s))\<rparr>"
  shows "one_owner cfg s' \<and> release_clears s'"
proof -
  let ?p = "last (pool s)"
  have d: "distinct (pool s)" using assms(1) by (simp add: one_owner_def)
  have ip: "\<And>w. in_pool s' w \<longleftrightarrow> in_pool s w \<and> w \<noteq> ?p"
    by (simp add: s' in_pool_def in_butlast[OF d assms(4)])
  have mh: "\<And>w. main_holds s' w \<longleftrightarrow> w = ?p" "\<And>w. \<not> main_holds s w"
    using assms(3) by (auto simp: s' main_holds_def)
  have wh: "\<And>w. worker_holds s' w \<longleftrightarrow> worker_holds s w"
    by (simp add: s' worker_holds_def)
  have p: "in_pool s ?p" using assms(4) by (simp add: in_pool_def)
  have pN: "?p < NUM_THREADS cfg" using assms(1) p by (simp add: one_owner_def)
  have "distinct (pool s')" using d by (simp add: s' distinct_butlast)
  moreover have "\<forall>w. in_pool s' w \<or> main_holds s' w \<longrightarrow> w < NUM_THREADS cfg"
    using assms(1) pN by (auto simp: ip mh one_owner_def)
  moreover have "\<forall>w<NUM_THREADS cfg.
        (in_pool s' w \<and> \<not> main_holds s' w \<and> \<not> worker_holds s' w) \<or>
        (\<not> in_pool s' w \<and> main_holds s' w \<and> \<not> worker_holds s' w) \<or>
        (\<not> in_pool s' w \<and> \<not> main_holds s' w \<and> worker_holds s' w)"
  proof (intro allI impI)
    fix w assume w: "w < NUM_THREADS cfg"
    from assms(1) w have "(in_pool s w \<and> \<not> main_holds s w \<and> \<not> worker_holds s w) \<or>
        (\<not> in_pool s w \<and> main_holds s w \<and> \<not> worker_holds s w) \<or>
        (\<not> in_pool s w \<and> \<not> main_holds s w \<and> worker_holds s w)"
      by (simp add: one_owner_def)
    then show "(in_pool s' w \<and> \<not> main_holds s' w \<and> \<not> worker_holds s' w) \<or>
        (\<not> in_pool s' w \<and> main_holds s' w \<and> \<not> worker_holds s' w) \<or>
        (\<not> in_pool s' w \<and> \<not> main_holds s' w \<and> worker_holds s' w)"
      using p unfolding ip mh wh by (cases "w = ?p") (simp_all add: mh)
  qed
  moreover have "release_clears s'"
    using assms(2) by (simp add: s' release_clears_def)
  ultimately show ?thesis by (simp add: one_owner_def)
qed

lemma one_owner_set:
  assumes "one_owner cfg s" "release_clears s" "mpc s = M_set p"
    and s': "s' = s\<lparr>event := (event s)(p := True), mpc := M_loop\<rparr>"
  shows "one_owner cfg s' \<and> release_clears s'"
proof -
  have mp: "main_holds s p" using assms(3) by (simp add: main_holds_def)
  have pN: "p < NUM_THREADS cfg" using assms(1) mp by (simp add: one_owner_def)
  have np: "\<not> worker_holds s p" "\<not> in_pool s p"
    using assms(1) mp pN by (auto simp: one_owner_def)
  have ip: "\<And>w. in_pool s' w \<longleftrightarrow> in_pool s w"
    by (simp add: s' in_pool_def)
  have mh: "\<And>w. \<not> main_holds s' w" "\<And>w. main_holds s w \<longleftrightarrow> w = p"
    using assms(3) by (auto simp: s' main_holds_def)
  have wh: "\<And>w. worker_holds s' w \<longleftrightarrow> worker_holds s w \<or> w = p"
    by (auto simp: s' worker_holds_def)
  have "distinct (pool s')" using assms(1) by (simp add: s' one_owner_def)
  moreover have "\<forall>w. in_pool s' w \<or> main_holds s' w \<longrightarrow> w < NUM_THREADS cfg"
    using assms(1) by (simp add: ip mh(1) one_owner_def)
  moreover have "\<forall>w<NUM_THREADS cfg.
        (in_pool s' w \<and> \<not> main_holds s' w \<and> \<not> worker_holds s' w) \<or>
        (\<not> in_pool s' w \<and> main_holds s' w \<and> \<not> worker_holds s' w) \<or>
        (\<not> in_pool s' w \<and> \<not> main_holds s' w \<and> worker_holds s' w)"
  proof (intro allI impI)
    fix w assume w: "w < NUM_THREADS cfg"
    from assms(1) w have "(in_pool s w \<and> \<not> main_holds s w \<and> \<not> worker_holds s w) \<or>
        (\<not> in_pool s w \<and> main_holds s w \<and> \<not> worker_holds s w) \<or>
        (\<not> in_pool s w \<and> \<not> main_holds s w \<and> worker_holds s w)"
      by (simp add: one_owner_def)
    then show "(in_pool s' w \<and> \<not> main_holds s' w \<and> \<not> worker_holds s' w) \<or>
        (\<not> in_pool s' w \<and> main_holds s' w \<and> \<not> worker_holds s' w) \<or>
        (\<not> in_pool s' w \<and> \<not> main_holds s' w \<and> worker_holds s' w)"
      using np unfolding ip wh by (cases "w = p") (simp_all add: mh)
  qed
  moreover have "release_clears s'"
  proof -
    have "\<not> (\<exists>r. wpc s p = W_release r)" using np(1) by (auto simp: worker_holds_def)
    then show ?thesis using assms(2) by (auto simp: s' release_clears_def)
  qed
  ultimately show ?thesis by (simp add: one_owner_def)
qed

lemma one_owner_main:
  assumes "one_owner cfg s" "release_clears s" "main_step cfg f s = Some s'"
  shows "one_owner cfg s' \<and> release_clears s'"
proof (cases "mpc s")
  case M_loop
  then have s': "s' = s\<lparr>mpc := (if done_flag s then M_close else M_lock)\<rparr>"
    using assms(3) by (simp add: main_step_def)
  show ?thesis
    using assms(1,2) by (rule one_owner_frame) (simp_all add: s' main_holds_def M_loop)
next
  case M_lock
  show ?thesis
  proof (cases "pool s = []")
    case True
    then have s': "s' = s\<lparr>mpc := M_loop\<rparr>"
      using assms(3) M_lock by (simp add: main_step_def)
    show ?thesis
      using assms(1,2) by (rule one_owner_frame) (simp_all add: s' main_holds_def M_lock)
  next
    case False
    then have "s' = s\<lparr>pool := butlast (pool s), mpc := M_fill (last (pool s))\<rparr>"
      using assms(3) M_lock by (simp add: main_step_def)
    with assms(1,2) M_lock False show ?thesis by (rule one_owner_pop)
  qed
next
  case (M_fill p)
  then have s': "s' = s\<lparr>stream := (stream s)(p := f), mpc := M_set p\<rparr>"
    using assms(3) by (simp add: main_step_def)
  show ?thesis
    using assms(1,2) by (rule one_owner_frame) (simp_all add: s' main_holds_def M_fill)
next
  case (M_set p)
  then have "s' = s\<lparr>event := (event s)(p := True), mpc := M_loop\<rparr>"
    using assms(3) by (simp add: main_step_def)
  with assms(1,2) M_set show ?thesis by (rule one_owner_set)
next
  case M_close
  then have s': "s' = s\<lparr>mpc := M_shutdown\<rparr>"
    using assms(3) by (simp add: main_step_def split: if_splits)
  show ?thesis
    using assms(1,2) by (rule one_owner_frame) (simp_all add: s' main_holds_def M_close)
next
  case M_shutdown
  then show ?thesis using assms(3) by (simp add: main_step_def)
qed

lemma one_owner_busy:
  assumes "one_owner cfg s" "release_clears s" "w < NUM_THREADS cfg"
    and "wpc s w \<noteq> W_dead" "event s w \<or> wpc s w \<noteq> W_wait"
    and s': "pool s' = pool s" "mpc s' = mpc s" "event s' = event s" "wpc s' = (wpc s)(w := pc)"
    and pc: "pc \<noteq> W_wait" "pc \<noteq> W_dead" "\<forall>r. pc \<noteq> W_release r"
  shows "one_owner cfg s' \<and> release_clears s'"
proof -
  have h: "worker_holds s w" using assms(4,5) by (auto simp: worker_holds_def)
  have ip: "\<And>v. in_pool s' v \<longleftrightarrow> in_pool s v" by (simp add: s' in_pool_def)
  have mh: "\<And>v. main_holds s' v \<longleftrightarrow> main_holds s v" by (simp add: s' main_holds_def)
  have wh: "\<And>v. worker_holds s' v \<longleftrightarrow> worker_holds s v"
    using h pc by (auto simp: s' worker_holds_def)
  have "release_clears s'" using assms(2) pc by (auto simp: s' release_clears_def)
  then show ?thesis using assms(1) by (simp add: one_owner_def ip mh wh s')
qed

lemma one_owner_finally:
  assumes "one_owner cfg s" "release_clears s" "w < NUM_THREADS cfg" "wpc s w = W_finally r"
    and s': "s' = s\<lparr>event := (event s)(w := False), wpc := (wpc s)(w := W_release r)\<rparr>"
  shows "one_owner cfg s' \<and> release_clears s'"
proof -
  have ip: "\<And>v. in_pool s' v \<longleftrightarrow> in_pool s v" by (simp add: s' in_pool_def)
  have mh: "\<And>v. main_holds s' v \<longleftrightarrow> main_holds s v" by (simp add: s' main_holds_def)
  have wh: "\<And>v. worker_holds s' v \<longleftrightarrow> worker_holds s v"
    using assms(4) by (auto simp: s' worker_holds_def)
  have p: "pool s' = pool s" by (simp add: s')
  have "release_clears s'" using assms(2) by (auto simp: s' release_clears_def)
  then show ?thesis using assms(1) by (simp add: one_owner_def ip mh wh p)
qed

lemma one_owner_release:
  assumes "one_owner cfg s" "release_clears s" "w < NUM_THREADS cfg" "wpc s w = W_release r"
    and s': "s' = s\<lparr>pool := pool s @ [w], wpc := (wpc s)(w := (if r then W_dead else W_wait))\<rparr>"
  shows "one_owner cfg s' \<and> release_clears s'"
proof -
  have e: "\<not> event s w" using assms(2,4) by (auto simp: release_clears_def)
  have h: "worker_holds s w" using assms(4) by (simp add: worker_holds_def)
  then have np: "\<not> in_pool s w" "\<not> main_holds s w"
    using assms(1,3) by (auto simp: one_owner_def)
  have ip: "\<And>v. in_pool s' v \<longleftrightarrow> in_pool s v \<or> v = w" by (auto simp: s' in_pool_def)
  have mh: "\<And>v. main_holds s' v \<longleftrightarrow> main_holds s v" by (simp add: s' main_holds_def)
  have wh: "\<And>v. worker_holds s' v \<longleftrightarrow> worker_holds s v \<and> v \<noteq> w"
    using e h by (auto simp: s' worker_holds_def)
  have "distinct (pool s')" using assms(1) np(1) by (simp add: s' one_owner_def in_pool_def)
  moreover have "\<forall>v. in_pool s' v \<or> main_holds s' v \<longrightarrow> v < NUM_THREADS cfg"
    using assms(1,3) by (auto simp: ip mh one_owner_def)
  moreover have "\<forall>v<NUM_THREADS cfg.
        (in_pool s' v \<and> \<not> main_holds s' v \<and> \<not> worker_holds s' v) \<or>
        (\<not> in_pool s' v \<and> main_holds s' v \<and> \<not> worker_holds s' v) \<or>
        (\<not> in_pool s' v \<and> \<not> main_holds s' v \<and> worker_holds s' v)"
  proof (intro allI impI)
    fix v assume v: "v < NUM_THREADS cfg"
    from assms(1) v have "(in_pool s v \<and> \<not> main_holds s v \<and> \<not> worker_holds s v) \<or>
        (\<not> in_pool s v \<and> main_holds s v \<and> \<not> worker_holds s v) \<or>
        (\<not> in_pool s v \<and> \<not> main_holds s v \<and> worker_holds s v)"
      by (simp add: one_owner_def)
    then show "(in_pool s' v \<and> \<not> main_holds s' v \<and> \<not> worker_holds s' v) \<or>
        (\<not> in_pool s' v \<and> main_holds s' v \<and> \<not> worker_holds s' v) \<or>
        (\<not> in_pool s' v \<and> \<not> main_holds s' v \<and> worker_holds s' v)"
      using np unfolding ip mh wh by (cases "v = w") simp_all
  qed
  moreover have "release_clears s'"
    using assms(2) by (auto simp: s' release_clears_def)
  ultimately show ?thesis by (simp add: one_owner_def)
qed

lemma one_owner_worker:
  assumes "one_owner cfg s" "release_clears s" "worker_step cfg w t s = Some s'"
  shows "one_owner cfg s' \<and> release_clears s'"
proof -
  have w: "w < NUM_THREADS cfg" using assms(3) by (auto simp: worker_step_def split: if_splits)
  show ?thesis
  proof (cases "wpc s w")
    case W_wait
    then have e: "event s w" and s': "s' = s\<lparr>wpc := (wpc s)(w := W_accept)\<rparr>"
      using assms(3) w by (auto simp: worker_step_def split: if_splits)
    show ?thesis
      using assms(1,2) w by (rule one_owner_busy[where pc = W_accept]) (simp_all add: s' W_wait e)
  next
    case W_accept
    then have s': "s' = s\<lparr>image_times := image_times s @ [t], taken := taken s + 1,
                  done_flag := (if taken s + 1 \<ge> NUM_SCANS cfg then True else done_flag s),
                  wpc := (wpc s)(w := W_decode)\<rparr>"
      using assms(3) w by (simp add: worker_step_def)
    show ?thesis
      using assms(1,2) w by (rule one_owner_busy[where pc = W_decode]) (simp_all add: s' W_accept)
  next
    case W_decode
    then obtain pc where s': "s' = s\<lparr>wpc := (wpc s)(w := pc)\<rparr>"
      and pc: "pc = W_finally True \<or> (\<exists>bits. pc = W_publish bits)"
      using assms(3) w by (auto simp: worker_step_def split: sum.splits)
    show ?thesis
      using assms(1,2) w by (rule one_owner_busy[where pc = pc]) (use pc in \<open>auto simp: s' W_decode\<close>)
  next
    case (W_publish bits)
    then have s': "s' = s\<lparr>current_bit_pattern := bits, wpc := (wpc s)(w := W_finally False)\<rparr>"
      using assms(3) w by (simp add: worker_step_def)
    show ?thesis
      using assms(1,2) w by (rule one_owner_busy[where pc = "W_finally False"]) (simp_all add: s' W_publish)
  next
    case (W_finally r)
    then have "s' = s\<lparr>event := (event s)(w := False), wpc := (wpc s)(w := W_release r)\<rparr>"
      using assms(3) w by (simp add: worker_step_def)
    with assms(1,2) w W_finally show ?thesis by (rule one_owner_finally)
  next
    case (W_release r)
    then have "s' = s\<lparr>pool := pool s @ [w], wpc := (wpc s)(w := (if r then W_dead else W_wait))\<rparr>"
      using assms(3) w by (simp add: worker_step_def)
    with assms(1,2) w W_release show ?thesis by (rule one_owner_release)
  next
    case W_dead
    then show ?thesis using assms(3) w by (simp add: worker_step_def)
  qed
qed

lemma one_owner_reachable:
  "reachable cfg bps s \<Longrightarrow> one_owner cfg s \<and> release_clears s"
proof (induction rule: reachable.induct)
  case reach_init
  show ?case by (simp add: one_owner_init)
next
  case (reach_step s a s')
  then show ?case
    by (cases a) (auto dest: one_owner_main one_owner_worker)
qed

lemma count_three:
  assumes "\<forall>x\<in>set xs. (A x \<and> \<not> B x \<and> \<not> C x) \<or> (\<not> A x \<and> B x \<and> \<not> C x) \<or> (\<not> A x \<and> \<not> B x \<and> C x)"
  shows "length (filter A xs) + length (filter B xs) + length (filter C xs) = length xs"
  using assms by (induction xs) auto

lemma length_pool:
  assumes "one_owner cfg s"
  shows "length (filter (in_pool s) [0..<NUM_THREADS cfg]) = length (pool s)"
proof -
  have d: "distinct (pool s)" and sub: "set (pool s) \<subseteq> {0..<NUM_THREADS cfg}"
    using assms by (auto simp: one_owner_def in_pool_def)
  have "length (filter (in_pool s) [0..<NUM_THREADS cfg]) = card ({w. in_pool s w} \<inter> set [0..<NUM_THREADS cfg])"
    by (rule distinct_length_filter) simp
  also have "{w. in_pool s w} \<inter> set [0..<NUM_THREADS cfg] = set (pool s)"
    using sub by (auto simp: in_pool_def)
  also have "card (set (pool s)) = length (pool s)"
    using d by (rule distinct_card)
  finally show ?thesis .
qed

text \<open>
  Claim C1. In every state that the interleaved threads can reach, the pool holds no
  processor twice and every processor (with its frame buffer) is in exactly one place:
  idle in the pool, with the main thread between \<open>pool.pop()\<close> and \<open>event.set()\<close>, or
  with its own thread from \<open>event.set()\<close> to \<open>pool.append(self)\<close>. So the three counts add
  up to \<open>NUM_THREADS\<close>.
\<close>

theorem buffers_have_one_owner:
  assumes "reachable cfg bps s"
  shows "distinct (pool s) \<and>
     (\<forall>w<NUM_THREADS cfg.
        (in_pool s w \<and> \<not> main_holds s w \<and> \<not> worker_holds s w) \<or>
        (\<not> in_pool s w \<and> main_holds s w \<and> \<not> worker_holds s w) \<or>
        (\<not> in_pool s w \<and> \<not> main_holds s w \<and> worker_holds s w)) \<and>
     length (pool s) + length (filter (main_holds s) [0..<NUM_THREADS cfg])
       + length (filter (worker_holds s) [0..<NUM_THREADS cfg]) = NUM_THREADS cfg"
proof -
  have o: "one_owner cfg s" using one_owner_reachable[OF assms] by simp
  then have p: "\<forall>w<NUM_THREADS cfg.
        (in_pool s w \<and> \<not> main_holds s w \<and> \<not> worker_holds s w) \<or>
        (\<not> in_pool s w \<and> main_holds s w \<and> \<not> worker_holds s w) \<or>
        (\<not> in_pool s w \<and> \<not> main_holds s w \<and> worker_holds s w)"
    by (simp add: one_owner_def)
  then have "\<forall>w\<in>set [0..<NUM_THREADS cfg].
        (in_pool s w \<and> \<not> main_holds s w \<and> \<not> worker_holds s w) \<or>
        (\<not> in_pool s w \<and> main_holds s w \<and> \<not> worker_holds s w) \<or>
        (\<not> in_pool s w \<and> \<not> main_holds s w \<and> worker_holds s w)"
    by simp
  from count_three[OF this] have
    "length (pool s) + length (filter (main_holds s) [0..<NUM_THREADS cfg])
       + length (filter (worker_holds s) [0..<NUM_THREADS cfg]) = NUM_THREADS cfg"
    by (simp add: length_pool[OF o])
  moreover have "distinct (pool s)" using o by (simp add: one_owner_def)
  ultimately show ?thesis using p by blast
qed

section \<open>The scan counter and the end of the session\<close>

lemma filter_split_point:
  "distinct xs \<Longrightarrow>
   length (filter Q xs) = length (filter (\<lambda>v. v \<noteq> p \<and> Q v) xs) + (if p \<in> set xs \<and> Q p then 1 else 0)"
  by (induction xs) auto

lemma count_le_Suc:
  assumes "\<forall>v. v \<noteq> p \<longrightarrow> Q' v = Q v"
  shows "length (filter Q' [0..<n]) \<le> length (filter Q [0..<n]) + 1"
proof -
  have "filter (\<lambda>v. v \<noteq> p \<and> Q' v) [0..<n] = filter (\<lambda>v. v \<noteq> p \<and> Q v) [0..<n]"
    using assms by (intro filter_cong) auto
  then show ?thesis
    using filter_split_point[of "[0..<n]" Q' p] filter_split_point[of "[0..<n]" Q p] by simp
qed

lemma count_dec:
  assumes "p < n" "Q p" "\<not> Q' p" "\<forall>v. v \<noteq> p \<longrightarrow> Q' v = Q v"
  shows "length (filter Q' [0..<n]) + 1 = length (filter Q [0..<n])"
proof -
  have "filter (\<lambda>v. v \<noteq> p \<and> Q' v) [0..<n] = filter (\<lambda>v. v \<noteq> p \<and> Q v) [0..<n]"
    using assms(4) by (intro filter_cong) auto
  then show ?thesis
    using filter_split_point[of "[0..<n]" Q' p] filter_split_point[of "[0..<n]" Q p] assms(1-3) by simp
qed

lemma count_lt:
  assumes "p < n" "\<not> Q p"
  shows "length (filter Q [0..<n]) < n"
proof -
  have "length (filter Q [0..<n]) < length [0..<n]"
    by (rule length_filter_less[of p]) (use assms in auto)
  then show ?thesis by simp
qed


lemma counter_init: "1 \<le> NUM_SCANS cfg \<Longrightarrow> counter_inv cfg (init cfg bps)"
  by (simp add: counter_inv_def init_def)

lemma signalled_frame:
  "event s' = event s \<Longrightarrow> wpc s' = wpc s \<Longrightarrow> signalled s' = signalled s"
  by (simp add: signalled_def fun_eq_iff)

lemma main_pending:
  assumes "done_flag s" "main_step cfg f s = Some s'"
  shows "pending cfg s' \<le> pending cfg s"
proof (cases "mpc s")
  case M_loop
  then have s': "s' = s\<lparr>mpc := M_close\<rparr>" using assms by (simp add: main_step_def)
  have "signalled s' = signalled s" by (rule signalled_frame) (simp_all add: s')
  then show ?thesis using M_loop by (simp add: pending_def s')
next
  case M_lock
  then have s': "s' = s\<lparr>pool := butlast (pool s), mpc := M_fill (last (pool s))\<rparr> \<or> s' = s\<lparr>mpc := M_loop\<rparr>"
    using assms by (auto simp: main_step_def split: if_splits)
  have "signalled s' = signalled s" by (rule signalled_frame) (use s' in auto)
  moreover have "(case mpc s' of M_lock \<Rightarrow> 1 | M_fill p \<Rightarrow> 1 | M_set p \<Rightarrow> 1 | _ \<Rightarrow> 0) \<le> (1::nat)"
    using s' by auto
  ultimately show ?thesis using M_lock by (simp add: pending_def)
next
  case (M_fill p)
  then have s': "s' = s\<lparr>stream := (stream s)(p := f), mpc := M_set p\<rparr>"
    using assms by (simp add: main_step_def)
  have "signalled s' = signalled s" by (rule signalled_frame) (simp_all add: s')
  then show ?thesis using M_fill by (simp add: pending_def s')
next
  case (M_set p)
  then have s': "s' = s\<lparr>event := (event s)(p := True), mpc := M_loop\<rparr>"
    using assms by (simp add: main_step_def)
  have "\<forall>v. v \<noteq> p \<longrightarrow> signalled s' v = signalled s v"
    by (simp add: s' signalled_def)
  then have "length (filter (signalled s') [0..<NUM_THREADS cfg])
        \<le> length (filter (signalled s) [0..<NUM_THREADS cfg]) + 1"
    by (rule count_le_Suc)
  then show ?thesis using M_set by (simp add: pending_def s')
next
  case M_close
  then have s': "s' = s\<lparr>mpc := M_shutdown\<rparr>" using assms by (simp add: main_step_def split: if_splits)
  have "signalled s' = signalled s" by (rule signalled_frame) (simp_all add: s')
  then show ?thesis using M_close by (simp add: pending_def s')
next
  case M_shutdown
  then show ?thesis using assms by (simp add: main_step_def)
qed

lemma counter_main:
  assumes "counter_inv cfg s" "main_step cfg f s = Some s'"
  shows "counter_inv cfg s'"
proof -
  have dt: "done_flag s' = done_flag s" "taken s' = taken s"
    using assms(2) by (auto simp: main_step_def split: main_pc.splits if_splits)
  have c1: "done_flag s' \<longleftrightarrow> NUM_SCANS cfg \<le> taken s'"
    using assms(1) by (simp add: dt counter_inv_def)
  have c2: "done_flag s' \<longrightarrow> taken s' + pending cfg s' \<le> NUM_SCANS cfg + NUM_THREADS cfg"
  proof
    assume "done_flag s'"
    then have d: "done_flag s" by (simp add: dt)
    from main_pending[OF d assms(2)] assms(1) d show
      "taken s' + pending cfg s' \<le> NUM_SCANS cfg + NUM_THREADS cfg"
      by (simp add: dt counter_inv_def)
  qed
  have c3: "mpc s' = M_close \<or> mpc s' = M_shutdown \<longrightarrow> done_flag s'"
    using assms by (auto simp: main_step_def counter_inv_def split: main_pc.splits if_splits)
  have c4: "mpc s' = M_shutdown \<longrightarrow> length (pool s') = NUM_THREADS cfg"
    using assms(2) by (auto simp: main_step_def split: main_pc.splits if_splits)
  show ?thesis using c1 c2 c3 c4 by (simp add: counter_inv_def)
qed

lemma full_pool_idle:
  assumes "one_owner cfg s" "length (pool s) = NUM_THREADS cfg"
  shows "worker_step cfg w t s = None"
proof (cases "w < NUM_THREADS cfg")
  case False
  then show ?thesis by (simp add: worker_step_def)
next
  case True
  have d: "distinct (pool s)" and sub: "set (pool s) \<subseteq> {0..<NUM_THREADS cfg}"
    using assms(1) by (auto simp: one_owner_def in_pool_def)
  have "card (set (pool s)) = card {0..<NUM_THREADS cfg}"
    using d assms(2) by (simp add: distinct_card)
  with sub have "set (pool s) = {0..<NUM_THREADS cfg}"
    by (intro card_subset_eq) simp_all
  then have "in_pool s w" using True by (simp add: in_pool_def)
  then have "\<not> worker_holds s w" using assms(1) True by (auto simp: one_owner_def)
  then show ?thesis
    using True by (auto simp: worker_holds_def worker_step_def)
qed

lemma counter_worker:
  assumes "counter_inv cfg s" "one_owner cfg s" "release_clears s"
    and "worker_step cfg w t s = Some s'"
  shows "counter_inv cfg s'"
proof -
  have w: "w < NUM_THREADS cfg" using assms(4) by (auto simp: worker_step_def split: if_splits)
  have m: "mpc s' = mpc s"
    using assms(4) by (auto simp: worker_step_def split: if_splits worker_pc.splits sum.splits)
  have ns: "mpc s \<noteq> M_shutdown"
  proof
    assume "mpc s = M_shutdown"
    then have "length (pool s) = NUM_THREADS cfg" using assms(1) by (simp add: counter_inv_def)
    from full_pool_idle[OF assms(2) this] assms(4) show False by simp
  qed
  show ?thesis
  proof (cases "wpc s w = W_accept")
    case True
    then have s': "s' = s\<lparr>image_times := image_times s @ [t], taken := taken s + 1,
                  done_flag := (if taken s + 1 \<ge> NUM_SCANS cfg then True else done_flag s),
                  wpc := (wpc s)(w := W_decode)\<rparr>"
      using assms(4) w by (simp add: worker_step_def)
    have q: "signalled s w" "\<not> signalled s' w" "\<forall>v. v \<noteq> w \<longrightarrow> signalled s' v = signalled s v"
      using True by (simp_all add: s' signalled_def)
    have dec: "length (filter (signalled s') [0..<NUM_THREADS cfg]) + 1
        = length (filter (signalled s) [0..<NUM_THREADS cfg])"
      using w q by (rule count_dec)
    have lt: "length (filter (signalled s') [0..<NUM_THREADS cfg]) < NUM_THREADS cfg"
      using w q(2) by (rule count_lt)
    have p: "pending cfg s' + 1 = pending cfg s"
      using dec by (simp add: pending_def m)
    have pN: "pending cfg s' \<le> NUM_THREADS cfg"
      using lt by (simp add: pending_def split: main_pc.splits)
    have c1: "done_flag s' \<longleftrightarrow> NUM_SCANS cfg \<le> taken s'"
      using assms(1) by (auto simp: s' counter_inv_def)
    have c2: "done_flag s' \<longrightarrow> taken s' + pending cfg s' \<le> NUM_SCANS cfg + NUM_THREADS cfg"
    proof (cases "done_flag s")
      case True
      then have "taken s + pending cfg s \<le> NUM_SCANS cfg + NUM_THREADS cfg"
        using assms(1) by (simp add: counter_inv_def)
      then show ?thesis using p by (simp add: s')
    next
      case False
      then have "taken s < NUM_SCANS cfg" using assms(1) by (simp add: counter_inv_def)
      then have "taken s' \<le> NUM_SCANS cfg" by (simp add: s')
      then show ?thesis using pN by simp
    qed
    have c3: "mpc s' = M_close \<or> mpc s' = M_shutdown \<longrightarrow> done_flag s'"
      using assms(1) by (auto simp: s' counter_inv_def)
    have c4: "mpc s' = M_shutdown \<longrightarrow> length (pool s') = NUM_THREADS cfg"
      using ns m by simp
    show ?thesis using c1 c2 c3 c4 by (simp add: counter_inv_def)
  next
    case False
    then have dt: "done_flag s' = done_flag s" "taken s' = taken s"
      using assms(4) by (auto simp: worker_step_def split: if_splits worker_pc.splits sum.splits)
    have e: "\<forall>r. wpc s w = W_release r \<longrightarrow> \<not> event s w"
      using assms(3) by (simp add: release_clears_def)
    have "\<forall>v. signalled s' v = signalled s v"
      using assms(4) False e
      by (auto simp: worker_step_def signalled_def split: if_splits worker_pc.splits sum.splits)
    then have "signalled s' = signalled s" by (simp add: fun_eq_iff)
    then have p: "pending cfg s' = pending cfg s" by (simp add: pending_def m)
    show ?thesis
      using assms(1) ns unfolding counter_inv_def dt p m by blast
  qed
qed

lemma counter_reachable:
  assumes "1 \<le> NUM_SCANS cfg" "reachable cfg bps s"
  shows "counter_inv cfg s"
  using assms(2)
proof (induction rule: reachable.induct)
  case reach_init
  show ?case using assms(1) by (rule counter_init)
next
  case (reach_step s a s')
  have o: "one_owner cfg s" "release_clears s"
    using one_owner_reachable[OF reach_step(1)] by simp_all
  show ?case
  proof (cases a)
    case (Main f)
    then show ?thesis using reach_step counter_main by auto
  next
    case (Work w t)
    then show ?thesis using reach_step o counter_worker by auto
  qed
qed

lemma done_stays:
  "done_flag s \<Longrightarrow> step cfg a s = Some s' \<Longrightarrow> done_flag s'"
  by (cases a)
    (auto simp: main_step_def worker_step_def split: main_pc.splits worker_pc.splits if_splits sum.splits)

text \<open>
  Claim C2, as the code has it. With a target of at least one scan: once \<open>taken\<close> has
  reached \<open>NUM_SCANS\<close> the flag \<open>done\<close> is true, and no step of any thread resets it.
  When the session is complete (\<open>close\<close> has seen \<open>len(pool) == NUM_THREADS\<close>), every
  processor is back in the pool and \<open>taken\<close> is at least \<open>NUM_SCANS\<close> and at most
  \<open>NUM_SCANS + NUM_THREADS\<close>: the frames handed out before the flag was seen are counted
  too. The counterexample is a session of two processors and target 1 that ends with
  \<open>taken = 2\<close>.
\<close>

theorem counter_reaches_target:
  assumes "1 \<le> NUM_SCANS cfg" "reachable cfg bps s"
  shows "(NUM_SCANS cfg \<le> taken s \<longrightarrow> done_flag s) \<and>
     (\<forall>a s'. done_flag s \<and> step cfg a s = Some s' \<longrightarrow> done_flag s') \<and>
     (session_complete s \<longrightarrow>
        done_flag s \<and> NUM_SCANS cfg \<le> taken s \<and> taken s \<le> NUM_SCANS cfg + NUM_THREADS cfg \<and>
        length (pool s) = NUM_THREADS cfg \<and> (\<forall>w<NUM_THREADS cfg. in_pool s w))"
proof -
  have c: "counter_inv cfg s" using assms by (rule counter_reachable)
  have o: "one_owner cfg s" using one_owner_reachable[OF assms(2)] by simp
  have a: "NUM_SCANS cfg \<le> taken s \<longrightarrow> done_flag s" using c by (simp add: counter_inv_def)
  have b: "\<forall>a s'. done_flag s \<and> step cfg a s = Some s' \<longrightarrow> done_flag s'"
    using done_stays by blast
  have d: "session_complete s \<longrightarrow>
        done_flag s \<and> NUM_SCANS cfg \<le> taken s \<and> taken s \<le> NUM_SCANS cfg + NUM_THREADS cfg \<and>
        length (pool s) = NUM_THREADS cfg \<and> (\<forall>w<NUM_THREADS cfg. in_pool s w)"
  proof
    assume "session_complete s"
    then have m: "mpc s = M_shutdown" by (simp add: session_complete_def)
    then have df: "done_flag s" and len: "length (pool s) = NUM_THREADS cfg"
      using c unfolding counter_inv_def by blast+
    then have k: "NUM_SCANS cfg \<le> taken s" and u: "taken s + pending cfg s \<le> NUM_SCANS cfg + NUM_THREADS cfg"
      using c unfolding counter_inv_def by blast+
    have dd: "distinct (pool s)" and sub: "set (pool s) \<subseteq> {0..<NUM_THREADS cfg}"
      using o by (auto simp: one_owner_def in_pool_def)
    have "card (set (pool s)) = card {0..<NUM_THREADS cfg}"
      using dd len by (simp add: distinct_card)
    with sub have "set (pool s) = {0..<NUM_THREADS cfg}"
      by (intro card_subset_eq) simp_all
    then have "\<forall>w<NUM_THREADS cfg. in_pool s w" by (simp add: in_pool_def)
    then show "done_flag s \<and> NUM_SCANS cfg \<le> taken s \<and> taken s \<le> NUM_SCANS cfg + NUM_THREADS cfg \<and>
        length (pool s) = NUM_THREADS cfg \<and> (\<forall>w<NUM_THREADS cfg. in_pool s w)"
      using df k u len by simp
  qed
  show ?thesis using a b d by blast
qed

lemmas sched_eval =
  main_step_def worker_step_def init_def brightness_def brightness_bit_def channel_means_def
  striped_def white_def SCAN_COLUMN_def session_complete_def in_pool_def main_holds_def
  worker_holds_def upt_rec

theorem buffers_have_one_owner_witness:
  "map_option pool (run \<lparr>NUM_THREADS = 3, NUM_SCANS = 5\<rparr>
      [Main [], Main [], Main (striped [white]), Main [], Main [], Main [], Work 2 (1::nat), Work 2 2]
      (init \<lparr>NUM_THREADS = 3, NUM_SCANS = 5\<rparr> [0, 1])) = Some [0] \<and>
   map_option mpc (run \<lparr>NUM_THREADS = 3, NUM_SCANS = 5\<rparr>
      [Main [], Main [], Main (striped [white]), Main [], Main [], Main [], Work 2 (1::nat), Work 2 2]
      (init \<lparr>NUM_THREADS = 3, NUM_SCANS = 5\<rparr> [0, 1])) = Some (M_fill 1) \<and>
   map_option (\<lambda>s. wpc s 2) (run \<lparr>NUM_THREADS = 3, NUM_SCANS = 5\<rparr>
      [Main [], Main [], Main (striped [white]), Main [], Main [], Main [], Work 2 (1::nat), Work 2 2]
      (init \<lparr>NUM_THREADS = 3, NUM_SCANS = 5\<rparr> [0, 1])) = Some W_decode \<and>
   map_option (\<lambda>s. length (pool s) + length (filter (main_holds s) [0..<3])
       + length (filter (worker_holds s) [0..<3]))
     (run \<lparr>NUM_THREADS = 3, NUM_SCANS = 5\<rparr>
      [Main [], Main [], Main (striped [white]), Main [], Main [], Main [], Work 2 (1::nat), Work 2 2]
      (init \<lparr>NUM_THREADS = 3, NUM_SCANS = 5\<rparr> [0, 1])) = Some 3"
proof -
  let ?cfg = "\<lparr>NUM_THREADS = 3, NUM_SCANS = 5\<rparr>"
  let ?run = "run ?cfg
      [Main [], Main [], Main (striped [white]), Main [], Main [], Main [], Work 2 (1::nat), Work 2 2]
      (init ?cfg [0, 1])"
  have "\<exists>s. ?run = Some s \<and> pool s = [0] \<and> mpc s = M_fill 1 \<and> wpc s 2 = W_decode"
    by (simp add: sched_eval)
  then obtain s where s: "?run = Some s" "pool s = [0]" "mpc s = M_fill 1" "wpc s 2 = W_decode"
    by blast
  have "reachable ?cfg [0, 1] s"
    using reach_init s(1) by (rule reachable_run)
  from buffers_have_one_owner[OF this] s show ?thesis by simp
qed

theorem counter_reaches_target_witness:
  "(1::nat) \<le> NUM_SCANS \<lparr>NUM_THREADS = 1, NUM_SCANS = 1\<rparr> \<and>
   map_option session_complete (run \<lparr>NUM_THREADS = 1, NUM_SCANS = 1\<rparr>
      [Main [], Main [], Main (striped [white]), Main [], Work 0 (1::nat), Work 0 2, Work 0 3,
       Work 0 4, Work 0 5, Work 0 6, Main [], Main []]
      (init \<lparr>NUM_THREADS = 1, NUM_SCANS = 1\<rparr> [0, 1])) = Some True \<and>
   map_option taken (run \<lparr>NUM_THREADS = 1, NUM_SCANS = 1\<rparr>
      [Main [], Main [], Main (striped [white]), Main [], Work 0 (1::nat), Work 0 2, Work 0 3,
       Work 0 4, Work 0 5, Work 0 6, Main [], Main []]
      (init \<lparr>NUM_THREADS = 1, NUM_SCANS = 1\<rparr> [0, 1])) = Some 1 \<and>
   map_option done_flag (run \<lparr>NUM_THREADS = 1, NUM_SCANS = 1\<rparr>
      [Main [], Main [], Main (striped [white]), Main [], Work 0 (1::nat), Work 0 2, Work 0 3,
       Work 0 4, Work 0 5, Work 0 6, Main [], Main []]
      (init \<lparr>NUM_THREADS = 1, NUM_SCANS = 1\<rparr> [0, 1])) = Some True \<and>
   map_option pool (run \<lparr>NUM_THREADS = 1, NUM_SCANS = 1\<rparr>
      [Main [], Main [], Main (striped [white]), Main [], Work 0 (1::nat), Work 0 2, Work 0 3,
       Work 0 4, Work 0 5, Work 0 6, Main [], Main []]
      (init \<lparr>NUM_THREADS = 1, NUM_SCANS = 1\<rparr> [0, 1])) = Some [0]"
proof -
  let ?cfg = "\<lparr>NUM_THREADS = 1, NUM_SCANS = 1\<rparr>"
  let ?run = "run ?cfg
      [Main [], Main [], Main (striped [white]), Main [], Work 0 (1::nat), Work 0 2, Work 0 3,
       Work 0 4, Work 0 5, Work 0 6, Main [], Main []]
      (init ?cfg [0, 1])"
  have "\<exists>s. ?run = Some s \<and> session_complete s \<and> taken s = 1 \<and> pool s = [0]"
    by (simp add: sched_eval)
  then obtain s where s: "?run = Some s" "session_complete s" "taken s = 1" "pool s = [0]"
    by blast
  have k: "1 \<le> NUM_SCANS ?cfg" by simp
  have "reachable ?cfg [0, 1] s"
    using reach_init s(1) by (rule reachable_run)
  from counter_reaches_target[OF k this] s show ?thesis by simp
qed

theorem exactly_target_counterexample:
  "NUM_SCANS \<lparr>NUM_THREADS = 2, NUM_SCANS = 1\<rparr> = 1 \<and>
   map_option session_complete (run \<lparr>NUM_THREADS = 2, NUM_SCANS = 1\<rparr>
      [Main [], Main [], Main (striped [white]), Main [],
       Main [], Main [], Main (striped [white]), Main [],
       Work 1 (5::nat), Work 0 6, Work 1 7, Work 0 8, Work 1 9, Work 0 10, Work 1 11, Work 0 12,
       Work 1 13, Work 0 14, Work 1 15, Work 0 16, Main [], Main []]
      (init \<lparr>NUM_THREADS = 2, NUM_SCANS = 1\<rparr> [0, 1])) = Some True \<and>
   map_option taken (run \<lparr>NUM_THREADS = 2, NUM_SCANS = 1\<rparr>
      [Main [], Main [], Main (striped [white]), Main [],
       Main [], Main [], Main (striped [white]), Main [],
       Work 1 (5::nat), Work 0 6, Work 1 7, Work 0 8, Work 1 9, Work 0 10, Work 1 11, Work 0 12,
       Work 1 13, Work 0 14, Work 1 15, Work 0 16, Main [], Main []]
      (init \<lparr>NUM_THREADS = 2, NUM_SCANS = 1\<rparr> [0, 1])) = Some 2 \<and>
   map_option pool (run \<lparr>NUM_THREADS = 2, NUM_SCANS = 1\<rparr>
      [Main [], Main [], Main (striped [white]), Main [],
       Main [], Main [], Main (striped [white]), Main [],
       Work 1 (5::nat), Work 0 6, Work 1 7, Work 0 8, Work 1 9, Work 0 10, Work 1 11, Work 0 12,
       Work 1 13, Work 0 14, Work 1 15, Work 0 16, Main [], Main []]
      (init \<lparr>NUM_THREADS = 2, NUM_SCANS = 1\<rparr> [0, 1])) = Some [1, 0]"
  by (simp add: sched_eval)

section \<open>A processor cycle that fails\<close>

lemma find_upt_Some:
  "find P [0..<n] = Some t \<longleftrightarrow> t < n \<and> P t \<and> (\<forall>j<t. \<not> P j)"
  unfolding find_Some_iff by auto

lemma find_upt_None: "find P [0..<n] = None \<longleftrightarrow> (\<forall>i<n. \<not> P i)"
  unfolding find_None_iff by auto

lemma find_rev_upt_None: "find P (rev [0..<n]) = None \<longleftrightarrow> (\<forall>i<n. \<not> P i)"
  unfolding find_None_iff by auto

lemma calibrate2_no_marker:
  assumes "array2 self = striped ps" "ps \<noteq> []" "scan_column2 self = 8" "bin_luminosity2 self = []"
    and "\<forall>p\<in>set ps. \<not> luminosity2 p < BLACK_BRIGHTNESS_MAX2"
  shows "calibrate2 self =
     (self\<lparr>bin_luminosity2 := map luminosity2 ps, closed2 := True\<rparr>, Inl AttributeError)"
proof -
  have ne: "array2 self \<noteq> []" using assms(1,2) by (simp add: striped_def)
  have cols: "list_all (\<lambda>row. scan_column2 self < length row) (array2 self)"
    by (simp add: assms(1,3) striped_def list_all_iff)
  have lums: "map (\<lambda>row. luminosity2 (row ! scan_column2 self)) (array2 self) = map luminosity2 ps"
    by (simp add: assms(1,3) striped_def)
  have len: "length (array2 self) = length ps" by (simp add: assms(1) striped_def)
  have none: "find (\<lambda>i. map luminosity2 ps ! i < BLACK_BRIGHTNESS_MAX2) [0..<length ps] = None"
    using assms(5) by (simp add: find_upt_None)
  show ?thesis
    unfolding calibrate2_def Let_def using ne cols
    by (simp add: lums len assms(4) none)
qed

text \<open>
  Claim C9 at a frame the processor can receive: 300 rows of 16 pixels, every pixel
  \<open>(60,60,60)\<close>, so that no row of column 8 is below the calibration threshold. The cycle
  of processor 0 counts the frame, \<open>_calibrate\<close> closes the stream and raises, and the
  \<open>finally\<close> block's \<open>_rewind\<close> raises at \<open>seek\<close> on the closed stream: the event is still
  set, the processor is not back in the pool, and the exception ends the thread.
\<close>

theorem failed_cycle_ends_thread:
  "run_cycle2 \<lparr>NUM_THREADS = 4, NUM_SCANS = 30\<rparr> 0 (7::nat)
     (\<lparr>pool2 = [1, 2, 3], taken2 = 0, done2 = False, image_times2 = []\<rparr>,
      \<lparr>array2 = striped (replicate 300 grey60), closed2 = False, event2 = True, scan_number2 = 0,
       bin_luminosity2 = [], bin_pixels2 = [], bit_pattern2 = [], scan_column2 = 8,
       printed2 = []\<rparr>) =
   ((\<lparr>pool2 = [1, 2, 3], taken2 = 1, done2 = False, image_times2 = [7]\<rparr>,
     \<lparr>array2 = striped (replicate 300 grey60), closed2 = True, event2 = True, scan_number2 = 0,
      bin_luminosity2 = replicate 300 60, bin_pixels2 = [], bit_pattern2 = [], scan_column2 = 8,
      printed2 = []\<rparr>),
    Inl ValueError)"
proof -
  let ?self1 = "\<lparr>array2 = striped (replicate 300 grey60), closed2 = False, event2 = True,
       scan_number2 = 0, bin_luminosity2 = [], bin_pixels2 = [], bit_pattern2 = [],
       scan_column2 = 8, printed2 = []\<rparr>"
  have l: "luminosity2 grey60 = 60" by (simp add: luminosity2_def grey60_def)
  have "calibrate2 ?self1 =
     (?self1\<lparr>bin_luminosity2 := map luminosity2 (replicate 300 grey60), closed2 := True\<rparr>,
      Inl AttributeError)"
    by (rule calibrate2_no_marker) (simp_all add: l BLACK_BRIGHTNESS_MAX2_def)
  then have c: "calibrate2 ?self1 =
     (?self1\<lparr>bin_luminosity2 := replicate 300 60, closed2 := True\<rparr>, Inl AttributeError)"
    by (simp add: l)
  show ?thesis
    by (simp add: run_cycle2_def try_block2_def c rewind2_def)
qed

text \<open>
  Two more ways for a cycle to end the thread. In \<open>g2scanner_threaded2.py\<close>, a frame whose
  markers are 100 rows apart has bins of 5 rows, and row number 8 of such a bin does not
  exist: the \<open>finally\<close> block returns the processor to the pool and clears the event, then
  the IndexError ends the thread. In \<open>g2scanner_threaded.py\<close> any exception of the \<open>try\<close>
  block does the same: the processor is in the pool and its thread is dead.
\<close>

lemma calibrate2_found:
  assumes "array2 self = striped ps" "ps \<noteq> []" "scan_column2 self = 8" "bin_luminosity2 self = []"
    and "find (\<lambda>i. map luminosity2 ps ! i < BLACK_BRIGHTNESS_MAX2) [0..<length ps] = Some tbp"
    and "find (\<lambda>i. map luminosity2 ps ! i < BLACK_BRIGHTNESS_MAX2) (rev [0..<length ps]) = Some bbp"
    and "tbp \<noteq> bbp"
  shows "calibrate2 self =
     (self\<lparr>bin_luminosity2 := map luminosity2 ps,
            bin_pixels2 := map (\<lambda>i. nat (py2_round (of_nat tbp + of_nat i * \<bar>(of_nat bbp - of_nat tbp) / 20\<bar>))) [0..<21]\<rparr>,
      Inr ())"
proof -
  have ne: "array2 self \<noteq> []" using assms(1,2) by (simp add: striped_def)
  have cols: "list_all (\<lambda>row. scan_column2 self < length row) (array2 self)"
    by (simp add: assms(1,3) striped_def list_all_iff)
  have lums: "map (\<lambda>row. luminosity2 (row ! scan_column2 self)) (array2 self) = map luminosity2 ps"
    by (simp add: assms(1,3) striped_def)
  have len: "length (array2 self) = length ps" by (simp add: assms(1) striped_def)
  have dp: "\<bar>(rat_of_nat bbp - rat_of_nat tbp) / 20\<bar> \<noteq> 0" using assms(7) by simp
  show ?thesis
    unfolding calibrate2_def Let_def using ne cols dp
    by (simp add: lums len assms(4,5,6))
qed

lemma floor_half: "\<lfloor>1 / 2 :: rat\<rfloor> = 0"
  by (simp add: floor_eq_iff)

lemma short_bin_cycle_ends_thread:
  "run_cycle2 \<lparr>NUM_THREADS = 4, NUM_SCANS = 30\<rparr> 0 (7::nat)
     (\<lparr>pool2 = [1, 2, 3], taken2 = 0, done2 = False, image_times2 = []\<rparr>,
      \<lparr>array2 = striped (black # replicate 99 grey60 @ black # replicate 199 grey60),
       closed2 = False, event2 = True, scan_number2 = 0,
       bin_luminosity2 = [], bin_pixels2 = [], bit_pattern2 = [], scan_column2 = 8,
       printed2 = []\<rparr>) =
   ((\<lparr>pool2 = [1, 2, 3, 0], taken2 = 1, done2 = False, image_times2 = [7]\<rparr>,
     \<lparr>array2 = striped (black # replicate 99 grey60 @ black # replicate 199 grey60),
      closed2 = False, event2 = False, scan_number2 = 0,
      bin_luminosity2 = 0 # replicate 99 60 @ 0 # replicate 199 60,
      bin_pixels2 = [0, 5, 10, 15, 20, 25, 30, 35, 40, 45, 50, 55, 60, 65, 70, 75, 80, 85, 90, 95, 100],
      bit_pattern2 = [], scan_column2 = 8, printed2 = []\<rparr>),
    Inl IndexError)"
proof -
  let ?ps = "black # replicate 99 grey60 @ black # replicate 199 grey60"
  let ?self1 = "\<lparr>array2 = striped ?ps, closed2 = False, event2 = True,
       scan_number2 = 0, bin_luminosity2 = [], bin_pixels2 = [], bit_pattern2 = [],
       scan_column2 = 8, printed2 = []\<rparr>"
  have l: "map luminosity2 ?ps = 0 # replicate 99 60 @ 0 # replicate 199 60"
    by (simp add: luminosity2_def grey60_def black_def)
  have "calibrate2 ?self1 =
     (?self1\<lparr>bin_luminosity2 := map luminosity2 ?ps,
            bin_pixels2 := map (\<lambda>i. nat (py2_round (of_nat 0 + of_nat i * \<bar>(of_nat 100 - of_nat 0) / 20\<bar>))) [0..<21]\<rparr>,
      Inr ())"
  proof (rule calibrate2_found)
    show "find (\<lambda>i. map luminosity2 ?ps ! i < BLACK_BRIGHTNESS_MAX2) [0..<length ?ps] = Some 0"
      unfolding l by (simp add: find_upt_Some BLACK_BRIGHTNESS_MAX2_def)
    show "find (\<lambda>i. map luminosity2 ?ps ! i < BLACK_BRIGHTNESS_MAX2) (rev [0..<length ?ps]) = Some 100"
      unfolding l by (auto simp: find_rev_upt_Some BLACK_BRIGHTNESS_MAX2_def nth_append nth_Cons')
  qed simp_all
  then have c: "calibrate2 ?self1 =
     (?self1\<lparr>bin_luminosity2 := 0 # replicate 99 60 @ 0 # replicate 199 60,
            bin_pixels2 := [0, 5, 10, 15, 20, 25, 30, 35, 40, 45, 50, 55, 60, 65, 70, 75, 80, 85, 90, 95, 100]\<rparr>,
      Inr ())"
    by (simp add: upt_21 py2_round_def luminosity2_def grey60_def black_def floor_half)
  have d: "decode_loop2 (striped ?ps) 8
      [0, 5, 10, 15, 20, 25, 30, 35, 40, 45, 50, 55, 60, 65, 70, 75, 80, 85, 90, 95, 100]
      [0..<20] [] = ([], Inl IndexError)"
    by (simp add: upt_20 striped_def)
  show ?thesis
    by (simp add: run_cycle2_def try_block2_def c d rewind2_def)
qed

lemma raised_release_ends_thread:
  assumes "w < NUM_THREADS cfg" "wpc s w = W_release True" "worker_step cfg w t s = Some s'"
  shows "in_pool s' w \<and> wpc s' w = W_dead \<and> worker_step cfg w t' s' = None"
  using assms by (auto simp: worker_step_def in_pool_def)

section \<open>Luminance in calibration and in decode\<close>




end
